theory Spec2Isabelle
  imports Main "HOL-Library.Word" "HOL-Library.AList"
begin

section \<open>Conversion of a ZIP web-page bundle to MHTML: a model of mhtml_from_zip.py\<close>

text \<open>
  Python \<open>str\<close> values are modelled as \<open>string\<close>, a list of \<open>char\<close>: the model
  covers the code points 0 to 255. On these, case-insensitive matching of the ASCII
  letters occurring in the program's patterns is ASCII case folding. Python \<open>bytes\<close>
  are lists of 8-bit words. The functions of \<open>os.path\<close> are those of \<open>posixpath\<close>.
  The command line of \<open>main\<close>, the reading of the input file and the writing of the
  output file are not modelled: the conversion starts from the bytes of the archive and
  ends with the message to be written.
\<close>

type_synonym bytes = "8 word list"

subsection \<open>String methods of Python used by the program\<close>

definition startswith :: "'a list \<Rightarrow> 'a list \<Rightarrow> bool" where
  "startswith s p = (take (length p) s = p)"

definition endswith :: "'a list \<Rightarrow> 'a list \<Rightarrow> bool" where
  "endswith s p = (length p \<le> length s \<and> drop (length s - length p) s = p)"

text \<open>\<open>str.lower\<close> on one code point below 256: A-Z, and the Latin-1 capitals
  U+00C0 to U+00DE without the multiplication sign U+00D7, move up by 32.\<close>

definition lower_chr :: "char \<Rightarrow> char" where
  "lower_chr c =
     (let n = (of_char c :: nat)
      in if (65 \<le> n \<and> n \<le> 90) \<or> (192 \<le> n \<and> n \<le> 222 \<and> n \<noteq> 215)
         then char_of (n + 32) else c)"

definition lower :: "string \<Rightarrow> string" where
  "lower s = map lower_chr s"

text \<open>\<open>s.split_on(sep)\<close> for a one-character separator: never an empty list.\<close>

fun split_on :: "char \<Rightarrow> string \<Rightarrow> string list" where
  "split_on sep [] = [[]]"
| "split_on sep (c # cs) =
     (if c = sep then [] # split_on sep cs
      else (case split_on sep cs of
              [] \<Rightarrow> [[c]]
            | w # ws \<Rightarrow> (c # w) # ws))"

text \<open>\<open>sep.join(parts)\<close> for a one-character separator.\<close>

fun join_with :: "char \<Rightarrow> string list \<Rightarrow> string" where
  "join_with sep [] = []"
| "join_with sep [w] = w"
| "join_with sep (w # ws) = w @ sep # join_with sep ws"

text \<open>\<open>s.lstrip(chars)\<close> and \<open>s.rstrip(chars)\<close>.\<close>

definition lstrip :: "string \<Rightarrow> string \<Rightarrow> string" where
  "lstrip chars s = dropWhile (\<lambda>c. c \<in> set chars) s"

definition rstrip :: "string \<Rightarrow> string \<Rightarrow> string" where
  "rstrip chars s = rev (dropWhile (\<lambda>c. c \<in> set chars) (rev s))"

text \<open>\<open>s.rfind(sep) + 1\<close>: the position after the last separator, 0 when there is none.\<close>

definition rfind_plus1 :: "char \<Rightarrow> string \<Rightarrow> nat" where
  "rfind_plus1 sep s = length s - length (takeWhile (\<lambda>c. c \<noteq> sep) (rev s))"

subsection \<open>posixpath: dirname, basename, join, normpath\<close>

definition dirname :: "string \<Rightarrow> string" where
  "dirname p =
     (let i = rfind_plus1 CHR ''/'' p;
          head = take i p
      in if head \<noteq> [] \<and> head \<noteq> replicate (length head) CHR ''/''
         then rstrip ''/'' head else head)"

definition basename :: "string \<Rightarrow> string" where
  "basename p = drop (rfind_plus1 CHR ''/'' p) p"

definition path_join :: "string \<Rightarrow> string \<Rightarrow> string" where
  "path_join a b =
     (if startswith b ''/'' then b
      else if a = [] \<or> endswith a ''/'' then a @ b
      else a @ ''/'' @ b)"

text \<open>The number of leading slashes \<open>normpath\<close> keeps: two when the path starts with
  exactly two, one when it starts with one or with three or more, none otherwise.\<close>

definition initial_slashes :: "string \<Rightarrow> nat" where
  "initial_slashes path =
     (if startswith path ''/''
      then (if startswith path ''//'' \<and> \<not> startswith path ''///'' then 2 else 1)
      else 0)"

text \<open>One round of the loop of \<open>normpath\<close> over the components; \<open>new_comps\<close> is the
  list built so far.\<close>

definition norm_step :: "nat \<Rightarrow> string list \<Rightarrow> string \<Rightarrow> string list" where
  "norm_step ini new_comps cmp =
     (if cmp = [] \<or> cmp = ''.'' then new_comps
      else if cmp \<noteq> ''..'' \<or> (ini = 0 \<and> new_comps = [])
              \<or> (new_comps \<noteq> [] \<and> last new_comps = ''..'')
           then new_comps @ [cmp]
      else if new_comps \<noteq> [] then butlast new_comps
      else new_comps)"

definition normpath :: "string \<Rightarrow> string" where
  "normpath path =
     (if path = [] then ''.''
      else
        let ini = initial_slashes path;
            comps = foldl (norm_step ini) [] (split_on CHR ''/'' path);
            joined = replicate ini CHR ''/'' @ join_with CHR ''/'' comps
        in if joined = [] then ''.'' else joined)"

subsection \<open>Path resolver\<close>

definition normalize_zip_path :: "string \<Rightarrow> string" where
  "normalize_zip_path p = map (\<lambda>c. if c = CHR 0x5C then CHR ''/'' else c) p"

definition resolve_rel_path :: "string \<Rightarrow> string \<Rightarrow> string" where
  "resolve_rel_path base_html ref_path =
     (let base_dir = dirname base_html;
          joined = (if startswith ref_path ''/'' \<or> startswith ref_path [CHR 0x5C]
                    then normpath (lstrip [CHR ''/'', CHR 0x5C] ref_path)
                    else normpath (path_join base_dir ref_path))
      in normalize_zip_path joined)"

subsection \<open>Errors, archives and the library environment\<close>

text \<open>
  Exceptions raised by the library and the language: \<open>BadZipFile\<close> is
  \<open>zipfile.BadZipFile\<close>, \<open>KeyError\<close> the error of \<open>ZipFile.read\<close> or of a dictionary
  on a name that is not there, \<open>LookupError\<close> the error of \<open>bytes.decode\<close> and of
  \<open>str.encode\<close> on an unknown codec name, \<open>ValueError\<close> the error of unpacking a list of
  the wrong length, \<open>NotImplementedError\<close> and \<open>UnicodeDecodeError\<close> two errors of the
  constructor \<open>zipfile.ZipFile\<close> (a format version it does not support, an entry name
  flagged as UTF-8 that is not), \<open>UnicodeEncodeError\<close> the error of \<open>str.encode\<close> on a
  character the codec does not have, and \<open>OtherError\<close> stands for any other exception.
\<close>

datatype exn =
    BadZipFile
  | KeyError string
  | LookupError string
  | ValueError
  | NotImplementedError
  | UnicodeDecodeError
  | UnicodeEncodeError
  | OtherError

text \<open>
  The ways \<open>process_zip\<close> can fail. It raises three \<open>RuntimeError\<close>s of its own, told
  apart by their messages: \<open>NoHtmlLayerFound\<close> when \<open>find_leaf_zip_with_html\<close> returns
  \<open>None\<close> (line 164), \<open>HtmlOverrideNotFound\<close> for an \<open>--html\<close> name that is not an entry
  (line 174), \<open>NoHtmlFound\<close> when \<open>pick_main_html\<close> returns the empty string (line 178).
  \<open>Raised e\<close> is an exception of the library or the language passing through.
\<close>

datatype error =
    NoHtmlLayerFound
  | HtmlOverrideNotFound string
  | NoHtmlFound
  | Raised exn

text \<open>
  An opened \<open>zipfile.ZipFile\<close>: the names as \<open>namelist()\<close> returns them, and \<open>read\<close>,
  which returns the bytes of an entry or raises.
\<close>

record zip_file =
  namelist :: "string list"
  read :: "string \<Rightarrow> exn + bytes"

text \<open>
  The library functions the program calls, taken as parameters:
  \<open>ZipFile b\<close> is \<open>zipfile.ZipFile(BytesIO(b), 'r')\<close>, the opened archive or the
  exception the constructor raises (\<open>BadZipFile\<close> or another one);
  \<open>decode charset b\<close> is \<open>b.decode(charset, errors="replace")\<close>;
  \<open>encode charset s\<close> is the encoding of the text in the charset that \<open>MIMEText\<close> does
  when it is given a charset (it raises \<open>UnicodeEncodeError\<close> or \<open>LookupError\<close>);
  \<open>unquote\<close> is \<open>urllib.parse.unquote\<close> (\<open>None\<close> when it raises);
  \<open>guess_type p\<close> is \<open>mimetypes.guess_type(p)[0]\<close>;
  \<open>uuid4_hex n\<close> is the value of \<open>uuid.uuid4().hex\<close> at the call number \<open>n\<close> of a run.
\<close>

record py_env =
  ZipFile :: "bytes \<Rightarrow> exn + zip_file"
  decode :: "string \<Rightarrow> bytes \<Rightarrow> exn + string"
  encode :: "string \<Rightarrow> string \<Rightarrow> exn + bytes"
  unquote :: "string \<Rightarrow> string option"
  guess_type :: "string \<Rightarrow> string option"
  uuid4_hex :: "nat \<Rightarrow> string"

subsection \<open>HTML selection\<close>

definition is_html_name :: "string \<Rightarrow> bool" where
  "is_html_name n = (endswith (lower n) ''.html'' \<or> endswith (lower n) ''.htm'')"

fun pick_main_html :: "string list \<Rightarrow> string" where
  "pick_main_html [] = []"
| "pick_main_html (n # ns) = (if is_html_name n then n else pick_main_html ns)"

text \<open>
  Lines 170 to 178 of \<open>process_zip\<close>. The override is \<open>None\<close> or a string; the test
  \<open>if html_name_override:\<close> is true for a string that is not empty.
\<close>

definition select_html :: "string list \<Rightarrow> string option \<Rightarrow> error + string" where
  "select_html names html_name_override =
     (case html_name_override of
        Some ov \<Rightarrow>
          (if ov \<noteq> [] then
             (if ov \<in> set names then Inr ov else Inl (HtmlOverrideNotFound ov))
           else
             (let html_name = pick_main_html names
              in if html_name = [] then Inl NoHtmlFound else Inr html_name))
      | None \<Rightarrow>
          (let html_name = pick_main_html names
           in if html_name = [] then Inl NoHtmlFound else Inr html_name))"

subsection \<open>Archive navigator\<close>

type_synonym seen_set = "(string \<times> nat) set"

text \<open>
  The loop of \<open>helper\<close> over the names of one layer. \<open>rec\<close> is the recursive call
  \<open>helper(child, depth + 1)\<close>; the set \<open>seen\<close> is shared by all calls and so is passed
  in and returned. \<open>KeyError\<close> of \<open>read\<close> skips the entry; \<open>BadZipFile\<close> raised inside
  the \<open>try\<close> block (by \<open>read\<close>, or by the constructor in \<open>helper\<close>) ends the layer with
  \<open>None\<close>; every other exception leaves the function.
\<close>

fun scan_names ::
  "(bytes \<Rightarrow> seen_set \<Rightarrow> (exn + bytes option) \<times> seen_set) \<Rightarrow> zip_file \<Rightarrow>
   string list \<Rightarrow> seen_set \<Rightarrow> (exn + bytes option) \<times> seen_set" where
  "scan_names rec zf [] seen = (Inr None, seen)"
| "scan_names rec zf (n # ns) seen =
     (if \<not> endswith (lower n) ''.zip'' then scan_names rec zf ns seen
      else
        (case read zf n of
           Inl (KeyError k) \<Rightarrow> scan_names rec zf ns seen
         | Inl BadZipFile \<Rightarrow> (Inr None, seen)
         | Inl e \<Rightarrow> (Inl e, seen)
         | Inr child \<Rightarrow>
             (let key = (n, length child)
              in if key \<in> seen then scan_names rec zf ns seen
                 else
                   (case rec child (insert key seen) of
                      (Inr (Some res), seen') \<Rightarrow> (Inr (Some res), seen')
                    | (Inr None, seen') \<Rightarrow> scan_names rec zf ns seen'
                    | (Inl BadZipFile, seen') \<Rightarrow> (Inr None, seen')
                    | (Inl e, seen') \<Rightarrow> (Inl e, seen')))))"

lemma scan_names_cong [fundef_cong]:
  assumes "zf = zf'" "ns = ns'" "seen = seen'"
    and "\<And>child s. rec child s = rec' child s"
  shows "scan_names rec zf ns seen = scan_names rec' zf' ns' seen'"
proof -
  have "rec = rec'" using assms(4) by (intro ext)
  with assms show ?thesis by simp
qed

function helper ::
  "py_env \<Rightarrow> nat \<Rightarrow> bytes \<Rightarrow> nat \<Rightarrow> seen_set \<Rightarrow> (exn + bytes option) \<times> seen_set" where
  "helper env max_depth b depth seen =
     (if depth > max_depth then (Inr None, seen)
      else
        (case ZipFile env b of
           Inl BadZipFile \<Rightarrow> (Inr None, seen)
         | Inl e \<Rightarrow> (Inl e, seen)
         | Inr zf \<Rightarrow>
             (let names = map normalize_zip_path (namelist zf)
              in if list_ex is_html_name names then (Inr (Some b), seen)
                 else scan_names (\<lambda>child s. helper env max_depth child (depth + 1) s)
                        zf names seen)))"
  by pat_completeness auto
termination
  by (relation "measure (\<lambda>(env, max_depth, b, depth, seen). Suc max_depth - depth)") auto

declare helper.simps [simp del]

definition find_leaf_zip_with_html :: "py_env \<Rightarrow> bytes \<Rightarrow> nat \<Rightarrow> exn + bytes option" where
  "find_leaf_zip_with_html env zip_bytes max_depth = fst (helper env max_depth zip_bytes 0 {})"

subsection \<open>Regular expressions of Python's re, as far as the program uses them\<close>

text \<open>
  A pattern is a list of items matched one after the other with backtracking. The
  quantifiers of the program's patterns all stand on a class of one character.
  All three patterns are compiled with \<open>re.I\<close>: a literal is compared ignoring case.
  \<open>Rep greedy lo hi P\<close> repeats the class \<open>P\<close> between \<open>lo\<close> and \<open>hi\<close> times
  (no upper bound for \<open>None\<close>); greedy, it tries the longest repetition first, lazy,
  the shortest. \<open>Boundary\<close> is \<open>\b\<close>; \<open>GroupOpen n\<close> and \<open>GroupClose n\<close> are the
  parentheses of group \<open>n\<close>; \<open>GroupRef n\<close> is the backreference \<open>\n\<close>.
\<close>

datatype rx_item =
    Lit char
  | Cls "char \<Rightarrow> bool"
  | Rep bool nat "nat option" "char \<Rightarrow> bool"
  | Boundary
  | GroupOpen nat
  | GroupClose nat
  | GroupRef nat

text \<open>The marks of a match in progress: where each group was opened, and the span of
  each closed group.\<close>

type_synonym marks = "(nat \<Rightarrow> nat) \<times> (nat \<Rightarrow> (nat \<times> nat) option)"

definition no_marks :: marks where
  "no_marks = ((\<lambda>n. 0), (\<lambda>n. None))"

text \<open>\<open>s[a:b]\<close> for \<open>a \<le> b\<close>.\<close>

definition slice :: "'a list \<Rightarrow> nat \<Rightarrow> nat \<Rightarrow> 'a list" where
  "slice s a b = take (b - a) (drop a s)"

text \<open>\<open>\w\<close> on the code points below 256: letters, digits, other numeric characters and
  the underscore. \<open>\s\<close> on the code points below 256.\<close>

definition is_word_chr :: "char \<Rightarrow> bool" where
  "is_word_chr c =
     (let n = (of_char c :: nat)
      in (48 \<le> n \<and> n \<le> 57) \<or> (65 \<le> n \<and> n \<le> 90) \<or> n = 95 \<or> (97 \<le> n \<and> n \<le> 122)
         \<or> n = 170 \<or> n = 178 \<or> n = 179 \<or> n = 181 \<or> n = 185 \<or> n = 186
         \<or> (188 \<le> n \<and> n \<le> 190) \<or> (192 \<le> n \<and> n \<le> 214) \<or> (216 \<le> n \<and> n \<le> 246)
         \<or> 248 \<le> n)"

definition is_space_chr :: "char \<Rightarrow> bool" where
  "is_space_chr c =
     (let n = (of_char c :: nat)
      in (9 \<le> n \<and> n \<le> 13) \<or> (28 \<le> n \<and> n \<le> 32) \<or> n = 133 \<or> n = 160)"

definition at_boundary :: "string \<Rightarrow> nat \<Rightarrow> bool" where
  "at_boundary s i =
     ((0 < i \<and> i \<le> length s \<and> is_word_chr (s ! (i - 1)))
        \<noteq> (i < length s \<and> is_word_chr (s ! i)))"

fun first_some :: "('a \<Rightarrow> 'b option) \<Rightarrow> 'a list \<Rightarrow> 'b option" where
  "first_some f [] = None"
| "first_some f (x # xs) = (case f x of Some y \<Rightarrow> Some y | None \<Rightarrow> first_some f xs)"

lemma first_some_cong [fundef_cong]:
  assumes "xs = ys" and "\<And>x. x \<in> set ys \<Longrightarrow> f x = g x"
  shows "first_some f xs = first_some g ys"
  using assms by (induction ys arbitrary: xs) (auto split: option.splits)

text \<open>\<open>rx_run p s i g\<close> matches the pattern \<open>p\<close> against \<open>s\<close> from position \<open>i\<close> with
  the marks \<open>g\<close>: the end of the first match the backtracking search finds, and its marks.\<close>

fun rx_run :: "rx_item list \<Rightarrow> string \<Rightarrow> nat \<Rightarrow> marks \<Rightarrow> (nat \<times> marks) option" where
  "rx_run [] s i g = Some (i, g)"
| "rx_run (Lit a # r) s i g =
     (if i < length s \<and> lower_chr (s ! i) = lower_chr a then rx_run r s (Suc i) g else None)"
| "rx_run (Cls P # r) s i g =
     (if i < length s \<and> P (s ! i) then rx_run r s (Suc i) g else None)"
| "rx_run (Rep greedy lo hi P # r) s i g =
     (let n = length (takeWhile P (drop i s));
          m = (case hi of None \<Rightarrow> n | Some h \<Rightarrow> min h n);
          ks = (if greedy then rev [lo..<Suc m] else [lo..<Suc m])
      in first_some (\<lambda>k. rx_run r s (i + k) g) ks)"
| "rx_run (Boundary # r) s i g = (if at_boundary s i then rx_run r s i g else None)"
| "rx_run (GroupOpen n # r) s i g = rx_run r s i ((fst g)(n := i), snd g)"
| "rx_run (GroupClose n # r) s i g = rx_run r s i (fst g, (snd g)(n \<mapsto> (fst g n, i)))"
| "rx_run (GroupRef n # r) s i g =
     (case snd g n of
        None \<Rightarrow> None
      | Some (a, b) \<Rightarrow>
          (let t = slice s a b
           in if i + length t \<le> length s \<and> lower (slice s i (i + length t)) = lower t
              then rx_run r s (i + length t) g else None))"

text \<open>A match object: the string, the span of the whole match, the spans of the groups.\<close>

record rx_match =
  m_string :: string
  m_start :: nat
  m_end :: nat
  m_spans :: "nat \<Rightarrow> (nat \<times> nat) option"

definition group0 :: "rx_match \<Rightarrow> string" where
  "group0 m = slice (m_string m) (m_start m) (m_end m)"

text \<open>\<open>m.group(n)\<close> for \<open>n > 0\<close>: \<open>None\<close> for a group that took no part in the match.\<close>

definition group :: "rx_match \<Rightarrow> nat \<Rightarrow> string option" where
  "group m n = (case m_spans m n of None \<Rightarrow> None | Some (a, b) \<Rightarrow> Some (slice (m_string m) a b))"

text \<open>\<open>pattern.match(s)\<close>, at position 0, and \<open>pattern.search(s, pos)\<close>, the leftmost match
  starting at \<open>pos\<close> or later.\<close>

definition rx_match_at :: "rx_item list \<Rightarrow> string \<Rightarrow> nat \<Rightarrow> rx_match option" where
  "rx_match_at p s i =
     (case rx_run p s i no_marks of
        None \<Rightarrow> None
      | Some (e, g) \<Rightarrow> Some \<lparr>m_string = s, m_start = i, m_end = e, m_spans = snd g\<rparr>)"

definition rx_search :: "rx_item list \<Rightarrow> string \<Rightarrow> nat \<Rightarrow> rx_match option" where
  "rx_search p s pos = first_some (rx_match_at p s) [pos..<Suc (length s)]"

lemma rx_search_start:
  assumes "rx_search p s pos = Some m"
  shows "pos \<le> m_start m \<and> m_start m \<le> length s"
proof -
  have "first_some (rx_match_at p s) xs = Some m \<Longrightarrow> m_start m \<in> set xs" for xs
    by (induction xs) (auto simp: rx_match_at_def split: option.splits)
  with assms show ?thesis by (fastforce simp: rx_search_def)
qed

text \<open>
  The matches \<open>re.sub\<close> works through, from left to right, each search starting where
  the last match ended. The program's pattern matches no empty string
  (lemma \<open>img_match_not_empty\<close>), so the treatment of empty matches by \<open>re.sub\<close> is not
  modelled: the scan stops at a match that does not advance.
\<close>

function finditer :: "rx_item list \<Rightarrow> string \<Rightarrow> nat \<Rightarrow> rx_match list" where
  "finditer p s pos =
     (case rx_search p s pos of
        None \<Rightarrow> []
      | Some m \<Rightarrow> (if pos < m_end m then m # finditer p s (m_end m) else []))"
  by pat_completeness auto
termination
proof (relation "measure (\<lambda>(p, s, pos). Suc (length s) - pos)")
  show "wf (measure (\<lambda>(p, s, pos). Suc (length s) - pos))" by simp
next
  fix p :: "rx_item list" and s pos m
  assume "rx_search p s pos = Some m" and "pos < m_end m"
  then show "((p, s, m_end m), (p, s, pos)) \<in> measure (\<lambda>(p, s, pos). Suc (length s) - pos)"
    using rx_search_start [of p s pos m] by auto
qed

declare finditer.simps [simp del]

text \<open>\<open>pattern.sub(repl, s)\<close> with a function \<open>repl\<close> that reads and updates a state and
  may raise: the text between the matches is copied, each match is replaced by what
  \<open>repl\<close> returns for it.\<close>

fun sub_from ::
  "(rx_match \<Rightarrow> 'st \<Rightarrow> exn + string \<times> 'st) \<Rightarrow> string \<Rightarrow> nat \<Rightarrow> rx_match list \<Rightarrow> 'st
   \<Rightarrow> exn + string \<times> 'st" where
  "sub_from repl s pos [] st = Inr (drop pos s, st)"
| "sub_from repl s pos (m # ms) st =
     (case repl m st of
        Inl e \<Rightarrow> Inl e
      | Inr (r, st') \<Rightarrow>
          (case sub_from repl s (m_end m) ms st' of
             Inl e \<Rightarrow> Inl e
           | Inr (rest, st'') \<Rightarrow> Inr (slice s pos (m_start m) @ r @ rest, st'')))"

definition re_sub ::
  "rx_item list \<Rightarrow> (rx_match \<Rightarrow> 'st \<Rightarrow> exn + string \<times> 'st) \<Rightarrow> string \<Rightarrow> 'st
   \<Rightarrow> exn + string \<times> 'st" where
  "re_sub p repl s st = sub_from repl s 0 (finditer p s 0) st"

subsection \<open>Encoding detector\<close>

definition BOM_UTF8 :: bytes where "BOM_UTF8 = [0xEF, 0xBB, 0xBF]"
definition BOM_UTF16_LE :: bytes where "BOM_UTF16_LE = [0xFF, 0xFE]"
definition BOM_UTF16_BE :: bytes where "BOM_UTF16_BE = [0xFE, 0xFF]"

text \<open>\<open>b.decode("ascii", errors="ignore")\<close>: the bytes below 128, as characters.\<close>

definition decode_ascii_ignore :: "bytes \<Rightarrow> string" where
  "decode_ascii_ignore b = map (\<lambda>w. char_of (unat w)) (filter (\<lambda>w. w < 0x80) b)"

text \<open>The class \<open>[A-Za-z0-9_\-]\<close> and the class of the two quotes.\<close>

definition is_token_chr :: "char \<Rightarrow> bool" where
  "is_token_chr c =
     (let n = (of_char c :: nat)
      in (65 \<le> n \<and> n \<le> 90) \<or> (97 \<le> n \<and> n \<le> 122) \<or> (48 \<le> n \<and> n \<le> 57)
         \<or> n = 95 \<or> n = 45)"

definition is_quote_chr :: "char \<Rightarrow> bool" where
  "is_quote_chr c = (c = CHR 0x22 \<or> c = CHR 0x27)"

text \<open>The pattern \<open>charset=["']?([A-Za-z0-9_\-]+)\<close>.\<close>

definition charset_re :: "rx_item list" where
  "charset_re =
     map Lit ''charset='' @
     [Rep True 0 (Some 1) is_quote_chr, GroupOpen 1, Rep True 1 None is_token_chr, GroupClose 1]"

text \<open>The function \<open>detect_encoding\<close>. Group 1 of a match of the pattern is never
  \<open>None\<close> (lemma \<open>charset_match_group\<close>); the model answers \<open>utf-8\<close> if it were.\<close>

definition detect_encoding :: "bytes \<Rightarrow> string" where
  "detect_encoding html_bytes =
     (if startswith html_bytes BOM_UTF8 then ''utf-8''
      else if startswith html_bytes BOM_UTF16_LE then ''utf-16le''
      else if startswith html_bytes BOM_UTF16_BE then ''utf-16be''
      else
        (let head = decode_ascii_ignore (take 8192 html_bytes)
         in case rx_search charset_re head 0 of
              Some m \<Rightarrow> (case group m 1 of Some tok \<Rightarrow> lower tok | None \<Rightarrow> ''utf-8'')
            | None \<Rightarrow> ''utf-8''))"

subsection \<open>Reference rewriter\<close>

text \<open>The pattern \<open>(<img\b[^>]*?\bsrc\s*=\s*)(["\'])(.+?)(\2)\<close>.\<close>

definition essential_img_src_re :: "rx_item list" where
  "essential_img_src_re =
     [GroupOpen 1] @ map Lit ''<img'' @
     [Boundary, Rep False 0 None (\<lambda>c. c \<noteq> CHR ''>''), Boundary] @ map Lit ''src'' @
     [Rep True 0 None is_space_chr, Lit CHR ''='', Rep True 0 None is_space_chr, GroupClose 1,
      GroupOpen 2, Cls is_quote_chr, GroupClose 2,
      GroupOpen 3, Rep False 1 None (\<lambda>c. c \<noteq> CHR 0x0A), GroupClose 3,
      GroupOpen 4, GroupRef 2, GroupClose 4]"

text \<open>The pattern \<open>^(https?:|data:|cid:|//)\<close>, used with \<open>match\<close>: one of the
  alternatives matches at position 0.\<close>

definition external_scheme_alternatives :: "rx_item list list" where
  "external_scheme_alternatives =
     [map Lit ''http'' @ [Rep True 0 (Some 1) (\<lambda>c. lower_chr c = CHR ''s''), Lit CHR '':''],
      map Lit ''data:'',
      map Lit ''cid:'',
      map Lit ''//'']"

definition external_scheme_re_match :: "string \<Rightarrow> bool" where
  "external_scheme_re_match s =
     list_ex (\<lambda>p. rx_run p s 0 no_marks \<noteq> None) external_scheme_alternatives"

text \<open>One entry of the list \<open>resources\<close>: a dictionary with the keys \<open>name\<close>, \<open>cid\<close>,
  \<open>data\<close> and \<open>mime\<close>. \<open>build_mhtml\<close> reads \<open>name\<close> and \<open>mime\<close> with \<open>get\<close> and a
  default, so these two keys may be absent.\<close>

record resource =
  res_name :: "string option"
  res_cid :: string
  res_data :: bytes
  res_mime :: "string option"

text \<open>The variables \<open>replace_img_src\<close> shares with \<open>process_zip\<close>, and the number of
  calls of \<open>uuid.uuid4\<close> made so far. The dictionary \<open>cid_map\<close> is an association list
  in insertion order.\<close>

record rewrite_state =
  resources :: "resource list"
  cid_map :: "(string \<times> string) list"
  inlined :: "string list"
  uuid_calls :: nat

definition empty_state :: rewrite_state where
  "empty_state = \<lparr>resources = [], cid_map = [], inlined = [], uuid_calls = 0\<rparr>"

definition path_core_of :: "string \<Rightarrow> string" where
  "path_core_of path =
     takeWhile (\<lambda>c. c \<noteq> CHR ''?'') (takeWhile (\<lambda>c. c \<noteq> CHR ''#'') path)"

definition candidates_of :: "py_env \<Rightarrow> string \<Rightarrow> string list" where
  "candidates_of env path_core =
     [path_core] @
     (case unquote env path_core of
        Some decoded \<Rightarrow> (if decoded \<noteq> path_core then [decoded] else [])
      | None \<Rightarrow> [])"

text \<open>The \<open>for cand in candidates\<close> loop of \<open>replace_img_src\<close>, with the final
  \<open>return m.group(0)\<close> when no candidate resolves. \<open>whole\<close> is \<open>m.group(0)\<close>.\<close>

fun try_candidates ::
  "py_env \<Rightarrow> zip_file \<Rightarrow> string \<Rightarrow> string set \<Rightarrow> (string \<rightharpoonup> string) \<Rightarrow>
   string \<Rightarrow> string \<Rightarrow> string \<Rightarrow> string list \<Rightarrow> rewrite_state \<Rightarrow>
   exn + string \<times> rewrite_state" where
  "try_candidates env zf html_name name_set name_map prefix quote whole [] st = Inr (whole, st)"
| "try_candidates env zf html_name name_set name_map prefix quote whole (cand # cands) st =
     (let rel = resolve_rel_path html_name cand
      in if rel \<in> name_set then
           (case map_of (cid_map st) rel of
              Some known \<Rightarrow> Inr (prefix @ quote @ ''cid:'' @ known @ quote, st)
            | None \<Rightarrow>
                (let cid = uuid4_hex env (uuid_calls st) @ ''@mhtml''
                 in case name_map rel of
                      None \<Rightarrow> Inl (KeyError rel)
                    | Some entry \<Rightarrow>
                        (case read zf entry of
                           Inl e \<Rightarrow> Inl e
                         | Inr data \<Rightarrow>
                             (let mime = (case guess_type env rel of
                                            Some t \<Rightarrow> (if t = [] then ''application/octet-stream'' else t)
                                          | None \<Rightarrow> ''application/octet-stream'');
                                  st' = st\<lparr>resources := resources st @
                                            [\<lparr>res_name = Some rel, res_cid = cid,
                                              res_data = data, res_mime = Some mime\<rparr>],
                                          cid_map := AList.update rel cid (cid_map st),
                                          inlined := inlined st @ [rel],
                                          uuid_calls := Suc (uuid_calls st)\<rparr>
                              in Inr (prefix @ quote @ ''cid:'' @ cid @ quote, st')))))
         else try_candidates env zf html_name name_set name_map prefix quote whole cands st)"

text \<open>The function \<open>replace_img_src\<close>. The groups 1 to 3 of a match of the pattern are
  never \<open>None\<close> (lemma \<open>img_match_groups\<close>); the model ends with an error if one is.\<close>

definition replace_img_src ::
  "py_env \<Rightarrow> zip_file \<Rightarrow> string \<Rightarrow> string set \<Rightarrow> (string \<rightharpoonup> string) \<Rightarrow>
   rx_match \<Rightarrow> rewrite_state \<Rightarrow> exn + string \<times> rewrite_state" where
  "replace_img_src env zf html_name name_set name_map m st =
     (case (group m 1, group m 2, group m 3) of
        (Some prefix, Some quote, Some path) \<Rightarrow>
          (let path_core = path_core_of path
           in if external_scheme_re_match path_core then Inr (group0 m, st)
              else try_candidates env zf html_name name_set name_map prefix quote (group0 m)
                     (candidates_of env path_core) st)
      | _ \<Rightarrow> Inl OtherError)"

subsection \<open>MIME packager\<close>

text \<open>\<open>s.split(sep, 1)\<close>: at most one split, at the first separator.\<close>

definition split_once :: "char \<Rightarrow> string \<Rightarrow> string list" where
  "split_once sep s =
     (if sep \<in> set s
      then [takeWhile (\<lambda>c. c \<noteq> sep) s, tl (dropWhile (\<lambda>c. c \<noteq> sep) s)]
      else [s])"

text \<open>Line 98: \<open>maintype, subtype = (mime.split("/", 1) + ["octet-stream"])[:2]\<close>.
  Unpacking raises \<open>ValueError\<close> unless the list has two elements.\<close>

definition split_mime :: "string \<Rightarrow> exn + string \<times> string" where
  "split_mime mime =
     (case take 2 (split_once CHR ''/'' mime @ [''octet-stream'']) of
        [maintype, subtype] \<Rightarrow> Inr (maintype, subtype)
      | _ \<Rightarrow> Inl ValueError)"

text \<open>
  The message is modelled as the tree the \<open>email\<close> classes build, before
  \<open>BytesGenerator\<close> writes it out: a part made by \<open>MIMEBase(maintype, subtype)\<close> with
  its payload (which \<open>encode_base64\<close> then encodes) and the headers added to it, the
  \<open>MIMEText\<close> part of the document, and the \<open>multipart/related\<close> root.
  \<open>MIMEText(html_text, "html", _charset=charset)\<close> of line 90 encodes the text in the
  charset, which may raise; the bytes it gives are the payload of the part. The
  serialisation is the library's and is not modelled.
\<close>

record mime_part =
  maintype :: string
  subtype :: string
  payload :: bytes
  headers :: "(string \<times> string) list"

record html_part =
  html_text :: string
  html_charset :: string
  html_payload :: bytes
  html_headers :: "(string \<times> string) list"

record mime_root =
  root_subtype :: string
  root_headers :: "(string \<times> string) list"
  root_params :: "(string \<times> string) list"
  root_html :: html_part
  root_parts :: "mime_part list"

definition resource_part :: "resource \<Rightarrow> exn + mime_part" where
  "resource_part res =
     (let mime = (case res_mime res of Some t \<Rightarrow> t | None \<Rightarrow> ''application/octet-stream'')
      in case split_mime mime of
           Inl e \<Rightarrow> Inl e
         | Inr (mt, sub) \<Rightarrow>
             Inr \<lparr>maintype = mt, subtype = sub, payload = res_data res,
                  headers = [(''Content-Transfer-Encoding'', ''base64''),
                             (''Content-ID'', ''<'' @ res_cid res @ ''>''),
                             (''Content-Location'',
                              (case res_name res of Some n \<Rightarrow> n | None \<Rightarrow> []))]\<rparr>)"

fun resource_parts :: "resource list \<Rightarrow> exn + mime_part list" where
  "resource_parts [] = Inr []"
| "resource_parts (res # rest) =
     (case resource_part res of
        Inl e \<Rightarrow> Inl e
      | Inr part \<Rightarrow>
          (case resource_parts rest of
             Inl e \<Rightarrow> Inl e
           | Inr parts \<Rightarrow> Inr (part # parts)))"

definition build_mhtml ::
  "py_env \<Rightarrow> string \<Rightarrow> string \<Rightarrow> resource list \<Rightarrow> string \<Rightarrow> exn + mime_root" where
  "build_mhtml env text html_name res_list charset =
     (case encode env charset text of
        Inl e \<Rightarrow> Inl e
      | Inr encoded \<Rightarrow>
          (let location = (if basename html_name = [] then ''index.html'' else basename html_name);
               part0 = \<lparr>html_text = text, html_charset = charset, html_payload = encoded,
                        html_headers = [(''Content-Location'', location)]\<rparr>
           in case resource_parts res_list of
                Inl e \<Rightarrow> Inl e
              | Inr parts \<Rightarrow>
                  Inr \<lparr>root_subtype = ''related'',
                       root_headers = [(''MIME-Version'', ''1.0'')],
                       root_params = [(''type'', ''text/html'')],
                       root_html = part0,
                       root_parts = parts\<rparr>))"

subsection \<open>Conversion\<close>

text \<open>
  \<open>process_zip\<close>, from the bytes read from \<open>zip_path\<close> to the message that is written
  to \<open>output_path\<close>; reading and writing the two files is left out. The result is the
  returned pair \<open>(html_name, inlined)\<close> and the message.
\<close>

definition process_leaf ::
  "py_env \<Rightarrow> zip_file \<Rightarrow> string option \<Rightarrow> error + string \<times> string list \<times> mime_root" where
  "process_leaf env zf html_name_override =
     (let names = map normalize_zip_path (namelist zf)
      in case select_html names html_name_override of
           Inl e \<Rightarrow> Inl e
         | Inr html_name \<Rightarrow>
             (case read zf html_name of
                Inl e \<Rightarrow> Inl (Raised e)
              | Inr html_bytes \<Rightarrow>
                  (let charset = detect_encoding html_bytes
                   in case decode env charset html_bytes of
                        Inl e \<Rightarrow> Inl (Raised e)
                      | Inr text \<Rightarrow>
                          (let name_set = set names;
                               name_map = map_of (map (\<lambda>n. (n, n)) names)
                           in case re_sub essential_img_src_re
                                     (replace_img_src env zf html_name name_set name_map)
                                     text empty_state of
                                Inl e \<Rightarrow> Inl (Raised e)
                              | Inr (new_html_text, st) \<Rightarrow>
                                  (case build_mhtml env new_html_text html_name (resources st) charset of
                                     Inl e \<Rightarrow> Inl (Raised e)
                                   | Inr msg \<Rightarrow> Inr (html_name, inlined st, msg))))))"

definition process_zip ::
  "py_env \<Rightarrow> bytes \<Rightarrow> string option \<Rightarrow> error + string \<times> string list \<times> mime_root" where
  "process_zip env root_bytes html_name_override =
     (case find_leaf_zip_with_html env root_bytes 10 of
        Inl e \<Rightarrow> Inl (Raised e)
      | Inr None \<Rightarrow> Inl NoHtmlLayerFound
      | Inr (Some leaf_bytes) \<Rightarrow>
          (case ZipFile env leaf_bytes of
             Inl e \<Rightarrow> Inl (Raised e)
           | Inr zf \<Rightarrow> process_leaf env zf html_name_override))"

subsection \<open>Example archives\<close>

text \<open>
  A small environment for concrete runs. Buffers are short byte lists; \<open>demo_ZipFile\<close>
  says which of them open as archives and what they hold. The buffer \<open>[9]\<close> is one the
  constructor refuses with \<open>NotImplementedError\<close>; in \<open>[10]\<close> the entry \<open>a.zip\<close> cannot be
  read (\<open>BadZipFile\<close>, as for a wrong checksum); a buffer of \<open>k + 1\<close> bytes \<open>42\<close> is a chain
  of \<open>k\<close> archives around a page. The codec table knows a few names and decodes and
  encodes byte by byte; \<open>unquote\<close> decodes \<open>%20\<close> only; the tokens of \<open>uuid4\<close> are \<open>id0\<close>,
  \<open>id00\<close>, and so on.
\<close>

definition latin1 :: "string \<Rightarrow> bytes" where
  "latin1 s = map (\<lambda>c. word_of_nat (of_char c)) s"

definition layer_of :: "(string \<times> bytes) list \<Rightarrow> zip_file" where
  "layer_of entries =
     \<lparr>namelist = map fst entries,
      read = (\<lambda>n. case map_of entries n of Some d \<Rightarrow> Inr d | None \<Rightarrow> Inl (KeyError n))\<rparr>"

definition demo_html :: string where
  "demo_html =
     ''<img src='img/a.png'><IMG alt=x SRC = '' @ [CHR 0x22] @ ''./img/a.png'' @ [CHR 0x22] @
     ''><img src='https://x/y.png'><img src='missing/not-there.png'>''"



definition demo_plain_page :: bytes where
  "demo_plain_page = latin1 ''<p>charset= ?</p>''"

definition demo_foo_page :: bytes where
  "demo_foo_page = latin1 ''<meta charset=foo>''"

definition demo_layer :: zip_file where
  "demo_layer = layer_of [(''index.html'', latin1 demo_html), (''img/a.png'', [0x89, 0x50])]"

definition demo_names :: "string list" where
  "demo_names = [''index.html'', ''img/a.png'']"

definition demo_name_map :: "string \<rightharpoonup> string" where
  "demo_name_map = map_of (map (\<lambda>n. (n, n)) demo_names)"

definition demo_matches :: "rx_match list" where
  "demo_matches = finditer essential_img_src_re demo_html 0"

definition demo_out :: string where
  "demo_out =
     ''<img src='cid:id0@mhtml'><IMG alt=x SRC = '' @ [CHR 0x22] @ ''cid:id0@mhtml'' @ [CHR 0x22] @
     ''><img src='https://x/y.png'><img src='missing/not-there.png'>''"

definition demo_state :: rewrite_state where
  "demo_state =
     \<lparr>resources = [\<lparr>res_name = Some ''img/a.png'', res_cid = ''id0@mhtml'',
                     res_data = [0x89, 0x50], res_mime = Some ''image/png''\<rparr>],
      cid_map = [(''img/a.png'', ''id0@mhtml'')],
      inlined = [''img/a.png''],
      uuid_calls = 1\<rparr>"

definition demo_bad_entry_layer :: zip_file where
  "demo_bad_entry_layer =
     \<lparr>namelist = [''a.zip'', ''b.zip''],
      read = (\<lambda>n. if n = ''a.zip'' then Inl BadZipFile
                  else if n = ''b.zip'' then Inr [6] else Inl (KeyError n))\<rparr>"

definition demo_ZipFile :: "bytes \<Rightarrow> exn + zip_file" where
  "demo_ZipFile b =
     (if b = [1] then Inr demo_layer
      else if b = [2] then Inr (layer_of [(''a.zip'', [3]), (''b.zip'', [4])])
      else if b = [3] then Inr (layer_of [(''inner.zip'', [5])])
      else if b = [4] then Inr (layer_of [(''inner.zip'', [6])])
      else if b = [5] then Inr (layer_of [(''readme.txt'', [])])
      else if b = [6] then Inr (layer_of [(''index.html'', latin1 ''<p>hi</p>'')])
      else if b = [7] then Inr (layer_of [(''page.htm'', demo_foo_page)])
      else if b = [8] then Inr (layer_of [(''pack.zip'', [1])])
      else if b = [9] then Inl NotImplementedError
      else if b = [10] then Inr demo_bad_entry_layer
      else if b = [11] then Inr (layer_of [(''x.zip'', [9]), (''y.zip'', [6])])
      else if b = [12] then Inr (layer_of [(''junk.zip'', []), (''good.zip'', [6])])
      else if b = [13] then Inr (layer_of [(''index.html'', []), (''a.zip'', [3]), (''b.zip'', [4])])
      else if b = [42] then Inr (layer_of [(''Page.HTM'', [])])
      else if take 1 b = [42] then Inr (layer_of [(''n.ZIP'', tl b)])
      else Inl BadZipFile)"

fun demo_unquote :: "string \<Rightarrow> string" where
  "demo_unquote (a # b # c # rest) =
     (if [a, b, c] = ''%20'' then CHR '' '' # demo_unquote rest
      else a # demo_unquote (b # c # rest))"
| "demo_unquote s = s"

definition demo_env :: py_env where
  "demo_env =
     \<lparr>ZipFile = demo_ZipFile,
      decode = (\<lambda>charset b.
         if charset \<in> set [''utf-8'', ''utf-16le'', ''utf-16be'', ''ascii'', ''latin-1'', ''gb2312'']
         then Inr (map (\<lambda>w. char_of (unat w)) b) else Inl (LookupError charset)),
      encode = (\<lambda>charset s.
         if charset \<in> set [''utf-8'', ''utf-16le'', ''utf-16be'', ''ascii'', ''latin-1'', ''gb2312'']
         then Inr (latin1 s) else Inl (LookupError charset)),
      unquote = (\<lambda>s. Some (demo_unquote s)),
      guess_type = (\<lambda>p. if endswith p ''.png'' then Some ''image/png'' else None),
      uuid4_hex = (\<lambda>n. ''id'' @ replicate (Suc n) CHR ''0'')\<rparr>"


subsection \<open>Notions used to state the properties\<close>




text \<open>
  The declaration the detector looks for, stated without the pattern: at position \<open>i\<close>
  stands \<open>charset=\<close> in any case, then an optional quote, then the token, the longest
  run of token characters, which is not empty. \<open>charset_declaration\<close> is the token of
  the leftmost declaration.
\<close>

definition declaration_at :: "string \<Rightarrow> nat \<Rightarrow> string option" where
  "declaration_at head i =
     (if i + 8 \<le> length head \<and> lower (slice head i (i + 8)) = ''charset=''
      then
        (let rest = drop (i + 8) head;
             after = (if rest \<noteq> [] \<and> is_quote_chr (hd rest) then tl rest else rest);
             tok = takeWhile is_token_chr after
         in if tok = [] then None else Some tok)
      else None)"

definition charset_declaration :: "string \<Rightarrow> string option" where
  "charset_declaration head = first_some (declaration_at head) [0..<Suc (length head)]"

text \<open>The token a greedy class of at least one character takes at position \<open>p\<close>.\<close>

definition token_at :: "(char \<Rightarrow> bool) \<Rightarrow> string \<Rightarrow> nat \<Rightarrow> marks \<Rightarrow> (nat \<times> marks) option" where
  "token_at P s p g =
     (let n = length (takeWhile P (drop p s))
      in if n = 0 then None
         else Some (p + n, ((fst g)(1 := p), (snd g)(1 \<mapsto> (p, p + n)))))"

text \<open>A buffer without any of the three byte-order marks.\<close>

definition no_bom :: "bytes \<Rightarrow> bool" where
  "no_bom b = (\<not> startswith b BOM_UTF8 \<and> \<not> startswith b BOM_UTF16_LE \<and> \<not> startswith b BOM_UTF16_BE)"

text \<open>
  Nested archives as the specification sees them, without the navigator's loop. A
  layer is a buffer; it has an HTML entry when it opens as an archive and one of its
  names ends in \<open>.html\<close> or \<open>.htm\<close>, in any case. Its nested archives are its entries whose
  name ends in \<open>.zip\<close>, in any case, and that can be read, in listing order.
\<close>

definition html_layer :: "py_env \<Rightarrow> bytes \<Rightarrow> bool" where
  "html_layer env b =
     (case ZipFile env b of
        Inr zf \<Rightarrow> list_ex is_html_name (map normalize_zip_path (namelist zf))
      | Inl e \<Rightarrow> False)"

definition zip_entries :: "zip_file \<Rightarrow> string list \<Rightarrow> (string \<times> bytes) list" where
  "zip_entries zf ns =
     concat (map (\<lambda>n. if endswith (lower n) ''.zip''
                        then (case read zf n of Inr child \<Rightarrow> [(n, child)] | Inl e \<Rightarrow> [])
                        else []) ns)"

definition nested_archives :: "py_env \<Rightarrow> bytes \<Rightarrow> (string \<times> bytes) list" where
  "nested_archives env b =
     (case ZipFile env b of
        Inr zf \<Rightarrow> zip_entries zf (map normalize_zip_path (namelist zf))
      | Inl e \<Rightarrow> [])"

text \<open>
  \<open>layers_upto env b d\<close> lists the layers nested at most \<open>d\<close> levels below \<open>b\<close> in
  depth-first order: a layer, then for each of its nested archives in turn the layers
  of that archive. \<open>find_html_layer\<close> is the contract of the specification: the first layer
  of this list that has an HTML entry, or nothing when the list has none.
\<close>

fun layers_upto :: "py_env \<Rightarrow> bytes \<Rightarrow> nat \<Rightarrow> bytes list" where
  "layers_upto env b 0 = [b]"
| "layers_upto env b (Suc d) =
     b # concat (map (\<lambda>c. layers_upto env (snd c) d) (nested_archives env b))"

definition find_html_layer :: "py_env \<Rightarrow> bytes \<Rightarrow> nat \<Rightarrow> bytes option" where
  "find_html_layer env b max_depth = find (html_layer env) (layers_upto env b max_depth)"

text \<open>
  Two conditions on an input under which the navigator meets the contract; both look
  only at layers without an HTML entry and at what lies below them, down to the depth
  limit. \<open>walk_keys\<close> lists the pairs of name and length of the nested archives met;
  the condition is that no pair occurs twice. \<open>walk_clean\<close> says that nothing met fails
  in an unusual way: a buffer opens or the constructor raises \<open>BadZipFile\<close>, and an
  entry whose name ends in \<open>.zip\<close> can be read or \<open>read\<close> raises \<open>KeyError\<close>.
\<close>

fun walk_keys :: "py_env \<Rightarrow> bytes \<Rightarrow> nat \<Rightarrow> (string \<times> nat) list" where
  "walk_keys env b 0 =
     (if html_layer env b then []
      else map (\<lambda>c. (fst c, length (snd c))) (nested_archives env b))"
| "walk_keys env b (Suc d) =
     (if html_layer env b then []
      else concat (map (\<lambda>c. (fst c, length (snd c)) # walk_keys env (snd c) d)
                     (nested_archives env b)))"

definition reads_or_skips :: "zip_file \<Rightarrow> string \<Rightarrow> bool" where
  "reads_or_skips zf n =
     (case read zf n of Inr child \<Rightarrow> True | Inl (KeyError k) \<Rightarrow> True | Inl e \<Rightarrow> False)"

definition layer_clean :: "py_env \<Rightarrow> bytes \<Rightarrow> bool" where
  "layer_clean env b =
     (case ZipFile env b of
        Inl e \<Rightarrow> e = BadZipFile
      | Inr zf \<Rightarrow>
          (let names = map normalize_zip_path (namelist zf)
           in list_ex is_html_name names
              \<or> list_all (\<lambda>n. \<not> endswith (lower n) ''.zip'' \<or> reads_or_skips zf n) names))"

fun walk_clean :: "py_env \<Rightarrow> bytes \<Rightarrow> nat \<Rightarrow> bool" where
  "walk_clean env b 0 = layer_clean env b"
| "walk_clean env b (Suc d) =
     (layer_clean env b
      \<and> (html_layer env b \<or> list_all (\<lambda>c. walk_clean env (snd c) d) (nested_archives env b)))"

text \<open>
  The text of a group of a match, empty for a group that took no part. A match of the
  image pattern has its first three groups.
\<close>

definition group_text :: "rx_match \<Rightarrow> nat \<Rightarrow> string" where
  "group_text m n = (case group m n of Some t \<Rightarrow> t | None \<Rightarrow> [])"

definition img_match :: "rx_match \<Rightarrow> bool" where
  "img_match m = (group m 1 \<noteq> None \<and> group m 2 \<noteq> None \<and> group m 3 \<noteq> None)"

text \<open>
  The canonical path a reference resolves to: none for an external reference, otherwise
  the first candidate, resolved against the document, that names an entry.
\<close>

definition resolved_path :: "py_env \<Rightarrow> string \<Rightarrow> string set \<Rightarrow> string \<Rightarrow> string option" where
  "resolved_path env html_name name_set path =
     (let path_core = path_core_of path
      in if external_scheme_re_match path_core then None
         else find (\<lambda>rel. rel \<in> name_set)
                (map (resolve_rel_path html_name) (candidates_of env path_core)))"

text \<open>
  A rewrite pass, match by match: \<open>rewrite_trace\<close> lists the replacement of every match
  with the state after it, \<open>assemble\<close> puts the text together from the replacements,
  \<open>state_before\<close> and \<open>state_after\<close> read the states off a trace.
\<close>

fun rewrite_trace ::
  "(rx_match \<Rightarrow> 'st \<Rightarrow> exn + string \<times> 'st) \<Rightarrow> rx_match list \<Rightarrow> 'st \<Rightarrow> exn + (string \<times> 'st) list" where
  "rewrite_trace repl [] st = Inr []"
| "rewrite_trace repl (m # ms) st =
     (case repl m st of
        Inl e \<Rightarrow> Inl e
      | Inr (r, st') \<Rightarrow>
          (case rewrite_trace repl ms st' of
             Inl e \<Rightarrow> Inl e
           | Inr tr \<Rightarrow> Inr ((r, st') # tr)))"

fun assemble :: "string \<Rightarrow> nat \<Rightarrow> rx_match list \<Rightarrow> string list \<Rightarrow> string" where
  "assemble s pos (m # ms) (r # rs) = slice s pos (m_start m) @ r @ assemble s (m_end m) ms rs"
| "assemble s pos ms rs = drop pos s"

definition state_after :: "'st \<Rightarrow> (string \<times> 'st) list \<Rightarrow> 'st" where
  "state_after st tr = (if tr = [] then st else snd (last tr))"

definition state_before :: "'st \<Rightarrow> (string \<times> 'st) list \<Rightarrow> nat \<Rightarrow> 'st" where
  "state_before st tr k = (if k = 0 then st else snd (tr ! (k - 1)))"

text \<open>The invariant of the pass: the resources and the entries of \<open>cid_map\<close> go together,
  in the same order, and no path occurs twice.\<close>

definition state_ok :: "rewrite_state \<Rightarrow> bool" where
  "state_ok st =
     (map (\<lambda>res. (res_name res, res_cid res)) (resources st)
        = map (\<lambda>(rel, c). (Some rel, c)) (cid_map st)
      \<and> distinct (map fst (cid_map st)))"

section \<open>Properties\<close>

subsection \<open>HTML selection\<close>

lemma is_html_name_not_empty: "is_html_name n \<Longrightarrow> n \<noteq> []"
  by (auto simp: is_html_name_def endswith_def lower_def)

lemma pick_main_html_find:
  "pick_main_html names = (case find is_html_name names of Some n \<Rightarrow> n | None \<Rightarrow> [])"
  by (induction names) auto

lemma find_is_html_name_not_empty: "find is_html_name names = Some n \<Longrightarrow> n \<noteq> []"
  by (induction names) (auto simp: is_html_name_not_empty split: if_splits)

lemma select_html_None:
  "select_html names None = (case find is_html_name names of Some n \<Rightarrow> Inr n | None \<Rightarrow> Inl NoHtmlFound)"
  by (auto simp: select_html_def pick_main_html_find Let_def find_is_html_name_not_empty split: option.splits)

text \<open>
  Claim C9, amended. An override that is not the empty string selects exactly the entry
  whose normalised name equals it, wherever it stands in the listing, and the selection
  fails with \<open>HtmlOverrideNotFound\<close> when no name equals it. The empty string counts as
  no override (the test is \<open>if html_name_override:\<close>). Without an override the first
  name of the listing that ends in \<open>.html\<close> or \<open>.htm\<close>, ignoring case, is selected, and
  the selection fails with \<open>NoHtmlFound\<close> when there is none.
\<close>

theorem select_html_override:
  "(ov \<noteq> [] \<longrightarrow> select_html names (Some ov) =
       (if ov \<in> set names then Inr ov else Inl (HtmlOverrideNotFound ov)))
   \<and> select_html names (Some []) = select_html names None
   \<and> select_html names None =
       (case find is_html_name names of Some n \<Rightarrow> Inr n | None \<Rightarrow> Inl NoHtmlFound)"
  using select_html_None [of names] by (simp add: select_html_def)

theorem select_html_override_witness:
  "select_html [''a.html'', ''b.html''] (Some ''b.html'') = Inr ''b.html''
   \<and> select_html [''a.html'', ''b.html''] (Some ''c.html'') = Inl (HtmlOverrideNotFound ''c.html'')
   \<and> select_html [''x.txt'', ''A.HTM'', ''b.html''] None = Inr ''A.HTM''"
proof -
  have e: "is_html_name ''A.HTM''" "\<not> is_html_name ''x.txt''" by code_simp+
  show ?thesis
    using select_html_override [of "''b.html''" "[''a.html'', ''b.html'']"]
      select_html_override [of "''c.html''" "[''a.html'', ''b.html'']"]
      select_html_override [of "[]" "[''x.txt'', ''A.HTM'', ''b.html'']"] e
    by simp
qed

text \<open>
  The claim as stated fails for the empty override: no entry is named by the empty
  string, and the first HTML entry is selected instead of the failure.
\<close>

theorem select_html_empty_override:
  "[] \<notin> set [''a.html''] \<and> select_html [''a.html''] (Some []) = Inr ''a.html''"
  by code_simp

subsection \<open>Archive navigator and selection\<close>

lemma scan_names_found:
  assumes "scan_names rec zf ns seen = (Inr (Some r), s')"
    and "\<And>child s s''. rec child s = (Inr (Some r), s'') \<Longrightarrow> Q"
  shows Q
  using assms
proof (induction ns arbitrary: seen)
  case Nil
  then show ?case by simp
next
  case (Cons n ns)
  then show ?case
    by (auto simp: Let_def split: if_splits sum.splits exn.splits option.splits prod.splits)
qed

lemma helper_found:
  "helper env md b depth seen = (Inr (Some r), s') \<Longrightarrow>
   \<exists>zf. ZipFile env r = Inr zf \<and> list_ex is_html_name (map normalize_zip_path (namelist zf))"
proof (induction env md b depth seen arbitrary: s' rule: helper.induct)
  case (1 env md b depth seen)
  note eq = helper.simps [of env md b depth seen]
  show ?case
  proof (cases "depth > md")
    case True
    with "1.prems" eq show ?thesis by simp
  next
    case False
    note d = this
    show ?thesis
    proof (cases "ZipFile env b")
      case (Inl e)
      with d "1.prems" eq show ?thesis by (simp split: exn.splits)
    next
      case (Inr zf)
      show ?thesis
      proof (cases "list_ex is_html_name (map normalize_zip_path (namelist zf))")
        case True
        with d Inr "1.prems" eq show ?thesis by auto
      next
        case False
        with d Inr "1.prems" eq
        have sc: "scan_names (\<lambda>child s. helper env md child (depth + 1) s) zf
                    (map normalize_zip_path (namelist zf)) seen = (Inr (Some r), s')"
          by simp
        show ?thesis
          by (rule scan_names_found [OF sc]) (rule "1.IH" [OF d Inr refl False])
      qed
    qed
  qed
qed



lemma find_leaf_found:
  assumes "find_leaf_zip_with_html env root md = Inr (Some leaf)"
  shows "\<exists>zf. ZipFile env leaf = Inr zf \<and> list_ex is_html_name (map normalize_zip_path (namelist zf))"
proof -
  obtain s' where "helper env md root 0 {} = (Inr (Some leaf), s')"
    using assms unfolding find_leaf_zip_with_html_def by (cases "helper env md root 0 {}") auto
  then show ?thesis by (rule helper_found)
qed

lemma list_ex_find: "list_ex P xs \<Longrightarrow> \<exists>x. find P xs = Some x \<and> P x"
  by (induction xs) auto

lemma select_html_on_html_layer:
  assumes "list_ex is_html_name names"
  shows "\<exists>n. select_html names None = Inr n \<and> is_html_name n \<and> n \<in> set names"
proof -
  from list_ex_find [OF assms] obtain n where n: "find is_html_name names = Some n" "is_html_name n"
    by blast
  then have "n \<in> set names" by (auto simp: find_Some_iff)
  with n show ?thesis by (simp add: select_html_None)
qed

lemma process_leaf_not_NoHtmlFound:
  assumes "select_html (map normalize_zip_path (namelist zf)) ov = Inr n"
  shows "process_leaf env zf ov \<noteq> Inl NoHtmlFound"
  using assms unfolding process_leaf_def
  by (simp add: Let_def split: sum.splits prod.splits)

text \<open>
  Claim C10. A layer returned by \<open>find_leaf_zip_with_html\<close> opens as an archive with an
  entry whose name ends in \<open>.html\<close> or \<open>.htm\<close>, so the selection without an override
  succeeds on it; \<open>process_zip\<close> without an override never fails with \<open>NoHtmlFound\<close>.
\<close>

theorem html_layer_always_selects:
  "(find_leaf_zip_with_html env root_bytes max_depth = Inr (Some leaf) \<longrightarrow>
      (\<exists>zf n. ZipFile env leaf = Inr zf
         \<and> select_html (map normalize_zip_path (namelist zf)) None = Inr n \<and> is_html_name n))
   \<and> process_zip env root_bytes None \<noteq> Inl NoHtmlFound"
proof (intro conjI impI)
  assume "find_leaf_zip_with_html env root_bytes max_depth = Inr (Some leaf)"
  from find_leaf_found [OF this] select_html_on_html_layer
  show "\<exists>zf n. ZipFile env leaf = Inr zf
         \<and> select_html (map normalize_zip_path (namelist zf)) None = Inr n \<and> is_html_name n"
    by blast
next
  show "process_zip env root_bytes None \<noteq> Inl NoHtmlFound"
  proof (cases "find_leaf_zip_with_html env root_bytes 10")
    case (Inl e)
    then show ?thesis by (simp add: process_zip_def)
  next
    case (Inr r)
    show ?thesis
    proof (cases r)
      case None
      with Inr show ?thesis by (simp add: process_zip_def)
    next
      case (Some leaf)
      with Inr have f: "find_leaf_zip_with_html env root_bytes 10 = Inr (Some leaf)" by simp
      from find_leaf_found [OF f] obtain zf where
        zf: "ZipFile env leaf = Inr zf" "list_ex is_html_name (map normalize_zip_path (namelist zf))"
        by blast
      from select_html_on_html_layer [OF zf(2)] obtain n where
        "select_html (map normalize_zip_path (namelist zf)) None = Inr n" by blast
      from process_leaf_not_NoHtmlFound [OF this] f zf(1)
      show ?thesis by (simp add: process_zip_def)
    qed
  qed
qed

lemma demo_find_nested: "find_leaf_zip_with_html demo_env [8] 10 = Inr (Some [1])"
  by code_simp

theorem html_layer_always_selects_witness:
  "find_leaf_zip_with_html demo_env [8] 10 = Inr (Some [1])
   \<and> (\<exists>zf n. ZipFile demo_env [1] = Inr zf
         \<and> select_html (map normalize_zip_path (namelist zf)) None = Inr n \<and> is_html_name n)
   \<and> process_zip demo_env [8] None \<noteq> Inl NoHtmlFound"
  using html_layer_always_selects [of demo_env "[8]" 10 "[1]"] demo_find_nested by simp




subsection \<open>MIME packager\<close>





subsection \<open>Path resolver\<close>









subsection \<open>Encoding detector\<close>

lemma slice_Cons: "i < length s \<Longrightarrow> slice s i (i + Suc n) = s ! i # slice s (Suc i) (Suc i + n)"
  by (simp add: slice_def Cons_nth_drop_Suc [symmetric])

lemma rx_run_lits:
  assumes "i \<le> length s"
  shows "rx_run (map Lit w @ r) s i g =
     (if i + length w \<le> length s \<and> lower (slice s i (i + length w)) = lower w
      then rx_run r s (i + length w) g else None)"
  using assms
proof (induction w arbitrary: i)
  case Nil
  then show ?case by (simp add: slice_def lower_def)
next
  case (Cons a w)
  show ?case
  proof (cases "i < length s")
    case True
    then show ?thesis
      using Cons.IH [of "Suc i"] slice_Cons [of i s "length w"]
      by (auto simp: lower_def)
  next
    case False
    then show ?thesis by simp
  qed
qed

lemma rx_run_opt:
  "rx_run (Rep True 0 (Some 1) P # r) s p g =
     (if p < length s \<and> P (s ! p)
      then (case rx_run r s (Suc p) g of Some y \<Rightarrow> Some y | None \<Rightarrow> rx_run r s p g)
      else rx_run r s p g)"
proof -
  let ?m = "min 1 (length (takeWhile P (drop p s)))"
  have run: "rx_run (Rep True 0 (Some 1) P # r) s p g
               = first_some (\<lambda>k. rx_run r s (p + k) g) (rev [0..<Suc ?m])"
    by (simp only: rx_run.simps Let_def option.case if_True)
  show ?thesis
  proof (cases "p < length s \<and> P (s ! p)")
    case True
    then have "drop p s = s ! p # drop (Suc p) s" by (simp add: Cons_nth_drop_Suc)
    with True have m: "?m = 1" by simp
    note run
    also have "first_some (\<lambda>k. rx_run r s (p + k) g) (rev [0..<Suc ?m])
                 = first_some (\<lambda>k. rx_run r s (p + k) g) (rev [0..<Suc 1])"
      by (simp only: m)
    also have "\<dots> = (case rx_run r s (Suc p) g of Some y \<Rightarrow> Some y | None \<Rightarrow> rx_run r s p g)"
      by (simp split: option.splits)
    finally show ?thesis using True by (auto simp del: rx_run.simps)
  next
    case False
    have m: "?m = 0"
    proof (cases "p < length s")
      case True
      then have "drop p s = s ! p # drop (Suc p) s" by (simp add: Cons_nth_drop_Suc)
      with False True show ?thesis by simp
    next
      case False
      then show ?thesis by simp
    qed
    note run
    also have "first_some (\<lambda>k. rx_run r s (p + k) g) (rev [0..<Suc ?m])
                 = first_some (\<lambda>k. rx_run r s (p + k) g) (rev [0..<Suc 0])"
      by (simp only: m)
    also have "\<dots> = rx_run r s p g"
      by (simp split: option.splits)
    finally show ?thesis using False by (auto simp del: rx_run.simps)
  qed
qed

lemma rx_run_token_group:
  "rx_run [GroupOpen 1, Rep True 1 None P, GroupClose 1] s p g = token_at P s p g"
proof (cases "length (takeWhile P (drop p s))")
  case 0
  then show ?thesis by (simp add: token_at_def)
next
  case (Suc k)
  then show ?thesis by (simp add: Let_def token_at_def)
qed

lemma quote_not_token: "is_quote_chr c \<Longrightarrow> \<not> is_token_chr c"
  by (auto simp: is_quote_chr_def is_token_chr_def)

lemma lower_charset: "lower ''charset='' = ''charset=''"
  by code_simp

lemma length_charset: "length ''charset='' = 8"
  by simp

lemma charset_run_unfolded:
  assumes "i \<le> length head"
  shows "rx_run charset_re head i no_marks =
     (if i + 8 \<le> length head \<and> lower (slice head i (i + 8)) = ''charset=''
      then (if i + 8 < length head \<and> is_quote_chr (head ! (i + 8))
            then (case token_at is_token_chr head (Suc (i + 8)) no_marks of
                    Some y \<Rightarrow> Some y
                  | None \<Rightarrow> token_at is_token_chr head (i + 8) no_marks)
            else token_at is_token_chr head (i + 8) no_marks)
      else None)"
  by (simp only: charset_re_def rx_run_lits [OF assms] length_charset lower_charset
        rx_run_opt rx_run_token_group)

lemma token_at_quote:
  assumes "p < length s" "is_quote_chr (s ! p)"
  shows "token_at is_token_chr s p g = None"
proof -
  from assms(1) have "drop p s = s ! p # drop (Suc p) s" by (simp add: Cons_nth_drop_Suc)
  with assms(2) quote_not_token show ?thesis by (simp add: token_at_def)
qed

lemma token_at_drop:
  "map_option (\<lambda>(e, g). slice s (fst g 1) e) (token_at P s p g0)
     = (if takeWhile P (drop p s) = [] then None else Some (takeWhile P (drop p s)))"
  by (simp add: token_at_def Let_def slice_def takeWhile_eq_take [symmetric])

lemma declaration_at_token:
  assumes "i + 8 \<le> length head" "lower (slice head i (i + 8)) = ''charset=''"
  shows "declaration_at head i =
     map_option (\<lambda>(e, g). slice head (fst g 1) e)
       (if i + 8 < length head \<and> is_quote_chr (head ! (i + 8))
        then token_at is_token_chr head (Suc (i + 8)) no_marks
        else token_at is_token_chr head (i + 8) no_marks)"
proof -
  define rest where "rest = drop (i + 8) head"
  have d: "declaration_at head i =
      (let after = (if rest \<noteq> [] \<and> is_quote_chr (hd rest) then tl rest else rest);
           tok = takeWhile is_token_chr after
       in if tok = [] then None else Some tok)"
    using assms by (simp only: declaration_at_def rest_def simp_thms if_True Let_def)
  have c: "(i + 8 < length head \<and> is_quote_chr (head ! (i + 8)))
             = (rest \<noteq> [] \<and> is_quote_chr (hd rest))"
    by (auto simp: rest_def hd_drop_conv_nth)
  have t: "drop (Suc (i + 8)) head = tl rest"
    unfolding rest_def by (metis drop_Suc tl_drop)
  let ?f = "map_option (\<lambda>(e, g). slice head (fst g 1) e)"
  show ?thesis
  proof (cases "rest \<noteq> [] \<and> is_quote_chr (hd rest)")
    case True
    with c have cond: "i + 8 < length head \<and> is_quote_chr (head ! (i + 8))" by blast
    from d True have "declaration_at head i
        = (if takeWhile is_token_chr (tl rest) = [] then None
           else Some (takeWhile is_token_chr (tl rest)))"
      by (simp add: Let_def)
    also have "\<dots> = ?f (token_at is_token_chr head (Suc (i + 8)) no_marks)"
      unfolding t [symmetric] by (rule token_at_drop [symmetric])
    also have "\<dots> = ?f (if i + 8 < length head \<and> is_quote_chr (head ! (i + 8))
        then token_at is_token_chr head (Suc (i + 8)) no_marks
        else token_at is_token_chr head (i + 8) no_marks)"
      by (subst if_P) (rule cond, rule refl)
    finally show ?thesis .
  next
    case False
    with c have cond: "\<not> (i + 8 < length head \<and> is_quote_chr (head ! (i + 8)))" by blast
    from d False have "declaration_at head i
        = (if takeWhile is_token_chr rest = [] then None
           else Some (takeWhile is_token_chr rest))"
      by (simp add: Let_def)
    also have "\<dots> = ?f (token_at is_token_chr head (i + 8) no_marks)"
      unfolding rest_def by (rule token_at_drop [symmetric])
    also have "\<dots> = ?f (if i + 8 < length head \<and> is_quote_chr (head ! (i + 8))
        then token_at is_token_chr head (Suc (i + 8)) no_marks
        else token_at is_token_chr head (i + 8) no_marks)"
      by (subst if_not_P) (rule cond, rule refl)
    finally show ?thesis .
  qed
qed

lemma token_at_span:
  "token_at P s p g = Some (e, g') \<Longrightarrow> snd g' 1 = Some (p, e) \<and> fst g' 1 = p"
  by (auto simp: token_at_def Let_def split: if_splits)

lemma charset_match_group:
  "(case rx_match_at charset_re head i of None \<Rightarrow> None | Some m \<Rightarrow> Some (group m 1))
     = map_option Some (declaration_at head i)"
proof (cases "i \<le> length head")
  case False
  then show ?thesis
    by (simp add: rx_match_at_def charset_re_def declaration_at_def)
next
  case le: True
  show ?thesis
  proof (cases "i + 8 \<le> length head \<and> lower (slice head i (i + 8)) = ''charset=''")
    case False
    then show ?thesis
      using charset_run_unfolded [OF le]
      by (auto simp: rx_match_at_def declaration_at_def)
  next
    case True
    note d = declaration_at_token [OF conjunct1 [OF True] conjunct2 [OF True]]
    show ?thesis
    proof (cases "i + 8 < length head \<and> is_quote_chr (head ! (i + 8))")
      case q: True
      then have "token_at is_token_chr head (i + 8) no_marks = None"
        using token_at_quote by blast
      with q True d charset_run_unfolded [OF le] show ?thesis
        by (auto simp: rx_match_at_def group_def split: option.splits dest!: token_at_span)
    next
      case False
      with True d charset_run_unfolded [OF le] show ?thesis
        by (auto simp: rx_match_at_def group_def split: option.splits dest!: token_at_span)
    qed
  qed
qed

lemma charset_search_group:
  "(case first_some (rx_match_at charset_re head) xs of None \<Rightarrow> None | Some m \<Rightarrow> group m 1)
     = first_some (declaration_at head) xs"
proof (induction xs)
  case Nil
  then show ?case by simp
next
  case (Cons i xs)
  from charset_match_group [of head i] Cons show ?case
    by (cases "rx_match_at charset_re head i"; cases "declaration_at head i") auto
qed

lemma detect_encoding_no_bom:
  assumes "no_bom b"
  shows "detect_encoding b =
     (case charset_declaration (decode_ascii_ignore (take 8192 b)) of
        Some tok \<Rightarrow> lower tok | None \<Rightarrow> ''utf-8'')"
proof -
  let ?head = "decode_ascii_ignore (take 8192 b)"
  let ?xs = "[0..<Suc (length ?head)]"
  from charset_search_group [of ?head ?xs]
  have g: "(case rx_search charset_re ?head 0 of None \<Rightarrow> None | Some m \<Rightarrow> group m 1)
             = charset_declaration ?head"
    by (simp only: rx_search_def charset_declaration_def)
  have "detect_encoding b =
      (case rx_search charset_re ?head 0 of
         Some m \<Rightarrow> (case group m 1 of Some tok \<Rightarrow> lower tok | None \<Rightarrow> ''utf-8'')
       | None \<Rightarrow> ''utf-8'')"
    using assms by (simp add: detect_encoding_def no_bom_def Let_def)
  also have "\<dots> = (case charset_declaration ?head of Some tok \<Rightarrow> lower tok | None \<Rightarrow> ''utf-8'')"
    unfolding g [symmetric] by (simp split: option.splits)
  finally show ?thesis .
qed




lemma lower_chr_token: "is_token_chr c \<Longrightarrow> is_token_chr (lower_chr c) \<and> lower_chr (lower_chr c) = lower_chr c"
  by (auto simp: is_token_chr_def lower_chr_def Let_def)

lemma first_some_Some: "first_some f xs = Some y \<Longrightarrow> \<exists>x\<in>set xs. f x = Some y"
  by (induction xs) (auto split: option.splits)

lemma charset_declaration_token:
  assumes "charset_declaration head = Some tok"
  shows "tok \<noteq> [] \<and> list_all is_token_chr tok"
proof -
  from first_some_Some [OF assms [unfolded charset_declaration_def]]
  obtain i where "declaration_at head i = Some tok" by blast
  then show ?thesis
    by (auto simp: declaration_at_def Let_def list_all_iff split: if_splits dest: set_takeWhileD)
qed

lemma detect_encoding_token:
  "detect_encoding b \<noteq> [] \<and> list_all (\<lambda>c. is_token_chr c \<and> lower_chr c = c) (detect_encoding b)"
proof -
  have names: "list_all (\<lambda>c. is_token_chr c \<and> lower_chr c = c) ''utf-8''"
    "list_all (\<lambda>c. is_token_chr c \<and> lower_chr c = c) ''utf-16le''"
    "list_all (\<lambda>c. is_token_chr c \<and> lower_chr c = c) ''utf-16be''"
    by code_simp+
  show ?thesis
  proof (cases "no_bom b")
    case False
    with names show ?thesis by (auto simp: detect_encoding_def no_bom_def)
  next
    case True
    show ?thesis
    proof (cases "charset_declaration (decode_ascii_ignore (take 8192 b))")
      case None
      with True names show ?thesis by (simp add: detect_encoding_no_bom)
    next
      case (Some tok)
      from charset_declaration_token [OF Some] lower_chr_token
      have "lower tok \<noteq> [] \<and> list_all (\<lambda>c. is_token_chr c \<and> lower_chr c = c) (lower tok)"
        by (auto simp: lower_def list_all_iff)
      with True Some show ?thesis by (simp add: detect_encoding_no_bom)
    qed
  qed
qed

text \<open>
  Claim C8, amended. The detector is a total function and its result is never empty and
  consists of lower-case letters, digits, \<open>_\<close> and \<open>-\<close>; without a byte-order mark and
  without a declaration that has a token the result is \<open>utf-8\<close>. The name is not
  checked against the codecs: when \<open>decode\<close> raises for it, the conversion fails with
  that exception.
\<close>

theorem detect_encoding_name_unchecked:
  "detect_encoding b \<noteq> []
   \<and> list_all (\<lambda>c. is_token_chr c \<and> lower_chr c = c) (detect_encoding b)
   \<and> (no_bom b \<and> charset_declaration (decode_ascii_ignore (take 8192 b)) = None
        \<longrightarrow> detect_encoding b = ''utf-8'')
   \<and> (select_html (map normalize_zip_path (namelist zf)) ov = Inr n \<and> read zf n = Inr b
        \<and> decode env (detect_encoding b) b = Inl e
        \<longrightarrow> process_leaf env zf ov = Inl (Raised e))"
  using detect_encoding_token [of b] detect_encoding_no_bom [of b]
  by (auto simp: process_leaf_def Let_def)

theorem detect_encoding_name_unchecked_witness:
  "no_bom demo_plain_page
   \<and> charset_declaration (decode_ascii_ignore (take 8192 demo_plain_page)) = None
   \<and> detect_encoding demo_plain_page = ''utf-8''
   \<and> select_html (map normalize_zip_path (namelist (layer_of [(''page.htm'', demo_foo_page)]))) None
        = Inr ''page.htm''
   \<and> read (layer_of [(''page.htm'', demo_foo_page)]) ''page.htm'' = Inr demo_foo_page
   \<and> decode demo_env (detect_encoding demo_foo_page) demo_foo_page = Inl (LookupError ''foo'')
   \<and> process_leaf demo_env (layer_of [(''page.htm'', demo_foo_page)]) None
        = Inl (Raised (LookupError ''foo''))"
proof -
  have e: "no_bom demo_plain_page"
    "charset_declaration (decode_ascii_ignore (take 8192 demo_plain_page)) = None"
    "select_html (map normalize_zip_path (namelist (layer_of [(''page.htm'', demo_foo_page)]))) None
        = Inr ''page.htm''"
    "read (layer_of [(''page.htm'', demo_foo_page)]) ''page.htm'' = Inr demo_foo_page"
    "decode demo_env (detect_encoding demo_foo_page) demo_foo_page = Inl (LookupError ''foo'')"
    by code_simp+
  show ?thesis
    using detect_encoding_name_unchecked [of demo_plain_page]
      detect_encoding_name_unchecked [of demo_foo_page "layer_of [(''page.htm'', demo_foo_page)]"
        None "''page.htm''" demo_env "LookupError ''foo''"] e
    by simp
qed

text \<open>
  The claim as stated fails on a document that declares \<open>charset=foo\<close>: the detector
  returns \<open>foo\<close>, no codec has that name, and the conversion ends with \<open>LookupError\<close>.
\<close>

theorem unknown_charset_counterexample:
  "detect_encoding demo_foo_page = ''foo''
   \<and> decode demo_env ''foo'' demo_foo_page = Inl (LookupError ''foo'')
   \<and> process_zip demo_env [7] None = Inl (Raised (LookupError ''foo''))"
  by code_simp

subsection \<open>Archive navigator: the traversal\<close>


















text \<open>
  The two other conditions are needed as well. In the layer \<open>[10]\<close> the entry \<open>a.zip\<close>
  cannot be read; \<open>BadZipFile\<close> ends the whole layer, and the page in \<open>b.zip\<close> is not
  found. In the layer \<open>[11]\<close> the constructor refuses \<open>x.zip\<close> with another exception,
  which ends the traversal.
\<close>

lemma unreadable_entry_ends_layer:
  "find_leaf_zip_with_html demo_env [10] 10 = Inr None
   \<and> find_html_layer demo_env [10] 10 = Some [6]
   \<and> distinct (walk_keys demo_env [10] 10)
   \<and> \<not> walk_clean demo_env [10] 10
   \<and> find_leaf_zip_with_html demo_env [11] 10 = Inl NotImplementedError
   \<and> find_html_layer demo_env [11] 10 = Some [6]
   \<and> distinct (walk_keys demo_env [11] 10)
   \<and> \<not> walk_clean demo_env [11] 10"
  by code_simp

subsection \<open>Reference rewriter\<close>

lemma rx_run_end_and_groups:
  "rx_run p s i g = Some (e, g') \<Longrightarrow>
     i \<le> e \<and> (\<forall>n. snd g n \<noteq> None \<or> GroupClose n \<in> set p \<longrightarrow> snd g' n \<noteq> None)"
proof (induction p s i g arbitrary: e g' rule: rx_run.induct)
  case (1 s i g)
  then show ?case by simp
next
  case (2 a r s i g)
  then show ?case by (fastforce split: if_splits)
next
  case (3 P r s i g)
  then show ?case by (fastforce split: if_splits)
next
  case (4 greedy lo hi P r s i g)
  let ?n = "length (takeWhile P (drop i s))"
  let ?m = "case hi of None \<Rightarrow> ?n | Some h \<Rightarrow> min h ?n"
  let ?ks = "if greedy then rev [lo..<Suc ?m] else [lo..<Suc ?m]"
  from "4.prems" have "first_some (\<lambda>k. rx_run r s (i + k) g) ?ks = Some (e, g')"
    by (simp add: Let_def)
  from first_some_Some [OF this] obtain k where k: "k \<in> set ?ks" "rx_run r s (i + k) g = Some (e, g')"
    by blast
  from "4.IH" [OF refl refl refl k] show ?case by auto
next
  case (5 r s i g)
  then show ?case by (fastforce split: if_splits)
next
  case (6 n r s i g)
  from "6.prems" have "rx_run r s i ((fst g)(n := i), snd g) = Some (e, g')" by simp
  from "6.IH" [OF this] show ?case by auto
next
  case (7 n r s i g)
  from "7.prems" have "rx_run r s i (fst g, (snd g)(n \<mapsto> (fst g n, i))) = Some (e, g')" by simp
  from "7.IH" [OF this] show ?case by auto
next
  case (8 n r s i g)
  from "8.prems" obtain a b where ab: "snd g n = Some (a, b)"
    by (cases "snd g n") auto
  let ?t = "slice s a b"
  from "8.prems" ab have c: "i + length ?t \<le> length s \<and> lower (slice s i (i + length ?t)) = lower ?t"
    and run: "rx_run r s (i + length ?t) g = Some (e, g')"
    by (auto simp: Let_def split: if_splits)
  from "8.IH" [OF ab refl refl c run] show ?case by auto
qed

lemma img_run_not_empty:
  assumes "rx_run essential_img_src_re s i g = Some (e, g')"
  shows "i < e"
proof -
  let ?r = "map Lit ''img'' @
     [Boundary, Rep False 0 None (\<lambda>c. c \<noteq> CHR ''>''), Boundary] @ map Lit ''src'' @
     [Rep True 0 None is_space_chr, Lit CHR ''='', Rep True 0 None is_space_chr, GroupClose 1,
      GroupOpen 2, Cls is_quote_chr, GroupClose 2,
      GroupOpen 3, Rep False 1 None (\<lambda>c. c \<noteq> CHR 0x0A), GroupClose 3,
      GroupOpen 4, GroupRef 2, GroupClose 4]"
  have "essential_img_src_re = GroupOpen 1 # Lit CHR ''<'' # ?r"
    by (simp add: essential_img_src_re_def)
  with assms have "rx_run (GroupOpen 1 # Lit CHR ''<'' # ?r) s i g = Some (e, g')" by simp
  then obtain g1 where "rx_run ?r s (Suc i) g1 = Some (e, g')"
    by (simp only: rx_run.simps split: if_splits) blast
  from rx_run_end_and_groups [OF this] show ?thesis by simp
qed

lemma img_match_not_empty:
  "rx_match_at essential_img_src_re s i = Some m \<Longrightarrow> m_start m < m_end m"
  by (auto simp: rx_match_at_def split: option.splits dest: img_run_not_empty)

lemma img_match_groups:
  assumes "rx_match_at essential_img_src_re s i = Some m"
  shows "\<exists>prefix quote path. group m 1 = Some prefix \<and> group m 2 = Some quote \<and> group m 3 = Some path"
proof -
  from assms obtain e g where r: "rx_run essential_img_src_re s i no_marks = Some (e, g)"
    and m: "m_spans m = snd g"
    by (auto simp: rx_match_at_def split: option.splits)
  have "GroupClose 1 \<in> set essential_img_src_re" "GroupClose 2 \<in> set essential_img_src_re"
    "GroupClose 3 \<in> set essential_img_src_re"
    by (simp_all add: essential_img_src_re_def)
  with rx_run_end_and_groups [OF r] m
  have "m_spans m 1 \<noteq> None" "m_spans m 2 \<noteq> None" "m_spans m 3 \<noteq> None" by auto
  then show ?thesis by (auto simp: group_def split: option.splits)
qed

lemma rx_search_match_at:
  "rx_search p s pos = Some m \<Longrightarrow> \<exists>i. rx_match_at p s i = Some m"
  unfolding rx_search_def by (blast dest: first_some_Some)

lemma finditer_match_at:
  "m \<in> set (finditer p s pos) \<Longrightarrow> \<exists>i. rx_match_at p s i = Some m"
proof (induction p s pos rule: finditer.induct)
  case (1 p s pos)
  show ?case
  proof (cases "rx_search p s pos")
    case None
    with "1.prems" show ?thesis by (simp add: finditer.simps [of p s pos])
  next
    case (Some m')
    show ?thesis
    proof (cases "pos < m_end m'")
      case True
      with Some "1.prems" have "m = m' \<or> m \<in> set (finditer p s (m_end m'))"
        by (simp add: finditer.simps [of p s pos])
      with "1.IH" [OF Some True] rx_search_match_at [OF Some] show ?thesis by blast
    next
      case False
      with Some "1.prems" show ?thesis by (simp add: finditer.simps [of p s pos])
    qed
  qed
qed

lemma sub_from_trace:
  "sub_from repl s pos ms st =
     (case rewrite_trace repl ms st of
        Inl e \<Rightarrow> Inl e
      | Inr tr \<Rightarrow> Inr (assemble s pos ms (map fst tr), state_after st tr))"
proof (induction ms arbitrary: pos st)
  case Nil
  then show ?case by (simp add: state_after_def)
next
  case (Cons m ms)
  show ?case
  proof (cases "repl m st")
    case (Inl e)
    then show ?thesis by simp
  next
    case (Inr p)
    obtain r st' where p: "p = (r, st')" by (cases p)
    show ?thesis
    proof (cases "rewrite_trace repl ms st'")
      case (Inl e)
      with Inr p Cons [of "m_end m" st'] show ?thesis by simp
    next
      case tr: (Inr tr)
      with Inr p Cons [of "m_end m" st'] show ?thesis
        by (cases tr) (simp_all add: state_after_def)
    qed
  qed
qed

lemma update_new_key: "map_of al k = None \<Longrightarrow> AList.update k v al = al @ [(k, v)]"
  by (induction al) auto

lemma try_candidates_none:
  "list_all (\<lambda>cand. resolve_rel_path html_name cand \<notin> name_set) cands \<Longrightarrow>
   try_candidates env zf html_name name_set name_map prefix quote whole cands st = Inr (whole, st)"
  by (induction cands) (simp_all add: Let_def)

lemma state_ok_add:
  assumes "state_ok st" "map_of (cid_map st) rel = None"
  shows "state_ok (st\<lparr>resources := resources st @
                        [\<lparr>res_name = Some rel, res_cid = cid, res_data = data, res_mime = mime\<rparr>],
                      cid_map := AList.update rel cid (cid_map st),
                      inlined := inl,
                      uuid_calls := u\<rparr>)"
proof -
  from assms(2) have "rel \<notin> fst ` set (cid_map st)" by (simp add: map_of_eq_None_iff)
  with assms show ?thesis
    by (simp add: state_ok_def update_new_key)
qed

lemma try_candidates_some:
  assumes "find (\<lambda>rel. rel \<in> name_set) (map (resolve_rel_path html_name) cands) = Some rel"
    and "try_candidates env zf html_name name_set name_map prefix quote whole cands st = Inr (r, st')"
    and "state_ok st"
  shows "state_ok st'
     \<and> (\<forall>x c. map_of (cid_map st) x = Some c \<longrightarrow> map_of (cid_map st') x = Some c)
     \<and> (\<exists>c. map_of (cid_map st') rel = Some c \<and> r = prefix @ quote @ ''cid:'' @ c @ quote)"
  using assms
proof (induction cands)
  case Nil
  then show ?case by simp
next
  case (Cons cand cands)
  show ?case
  proof (cases "resolve_rel_path html_name cand \<in> name_set")
    case False
    with Cons show ?thesis by (simp add: Let_def)
  next
    case True
    with Cons.prems(1) have rel: "rel = resolve_rel_path html_name cand" by simp
    show ?thesis
    proof (cases "map_of (cid_map st) rel")
      case (Some known)
      with True rel Cons.prems show ?thesis by (simp add: Let_def)
    next
      case None
      with True rel Cons.prems(2) obtain entry data where
        st': "st' = st\<lparr>resources := resources st @
                 [\<lparr>res_name = Some rel, res_cid = uuid4_hex env (uuid_calls st) @ ''@mhtml'',
                   res_data = data,
                   res_mime = Some (case guess_type env rel of
                                      Some t \<Rightarrow> (if t = [] then ''application/octet-stream'' else t)
                                    | None \<Rightarrow> ''application/octet-stream'')\<rparr>],
               cid_map := AList.update rel (uuid4_hex env (uuid_calls st) @ ''@mhtml'') (cid_map st),
               inlined := inlined st @ [rel],
               uuid_calls := Suc (uuid_calls st)\<rparr>"
        and r: "r = prefix @ quote @ ''cid:'' @ (uuid4_hex env (uuid_calls st) @ ''@mhtml'') @ quote"
        by (auto simp: Let_def split: option.splits sum.splits)
      have ok: "state_ok st'"
        unfolding st' by (rule state_ok_add [OF Cons.prems(3) None])
      have mono: "\<forall>x c. map_of (cid_map st) x = Some c \<longrightarrow> map_of (cid_map st') x = Some c"
        using None by (auto simp: st' update_conv')
      have "map_of (cid_map st') rel = Some (uuid4_hex env (uuid_calls st) @ ''@mhtml'')"
        by (simp add: st' update_conv')
      with ok mono r show ?thesis by blast
    qed
  qed
qed

lemma replace_img_src_step:
  assumes g: "group m 1 = Some prefix" "group m 2 = Some quote" "group m 3 = Some path"
    and run: "replace_img_src env zf html_name name_set name_map m st = Inr (r, st')"
    and ok: "state_ok st"
  shows "state_ok st'
     \<and> (\<forall>x c. map_of (cid_map st) x = Some c \<longrightarrow> map_of (cid_map st') x = Some c)
     \<and> (case resolved_path env html_name name_set path of
          None \<Rightarrow> r = group0 m \<and> st' = st
        | Some rel \<Rightarrow> (\<exists>c. map_of (cid_map st') rel = Some c
                            \<and> r = prefix @ quote @ ''cid:'' @ c @ quote))"
proof (cases "external_scheme_re_match (path_core_of path)")
  case True
  with g run ok show ?thesis
    by (auto simp: replace_img_src_def resolved_path_def Let_def)
next
  case False
  let ?cands = "candidates_of env (path_core_of path)"
  from g run False have tc:
    "try_candidates env zf html_name name_set name_map prefix quote (group0 m) ?cands st = Inr (r, st')"
    by (simp add: replace_img_src_def Let_def)
  show ?thesis
  proof (cases "find (\<lambda>rel. rel \<in> name_set) (map (resolve_rel_path html_name) ?cands)")
    case None
    then have "list_all (\<lambda>cand. resolve_rel_path html_name cand \<notin> name_set) ?cands"
      by (auto simp: find_None_iff list_all_iff)
    from try_candidates_none [OF this] tc have "r = group0 m" "st' = st" by simp_all
    with None False ok show ?thesis by (simp add: resolved_path_def Let_def)
  next
    case (Some rel)
    from try_candidates_some [OF Some tc ok] Some False show ?thesis
      by (simp add: resolved_path_def Let_def)
  qed
qed

lemma finditer_img_match:
  "m \<in> set (finditer essential_img_src_re s pos) \<Longrightarrow> img_match m"
  using finditer_match_at [of m essential_img_src_re s pos] img_match_groups [of s _ m]
  by (auto simp: img_match_def)

lemma rewrite_trace_length: "rewrite_trace repl ms st = Inr tr \<Longrightarrow> length tr = length ms"
  by (induction ms arbitrary: st tr) (auto split: sum.splits prod.splits)

lemma rewrite_trace_props:
  fixes env zf html_name name_set name_map
  defines "repl \<equiv> replace_img_src env zf html_name name_set name_map"
  assumes "rewrite_trace repl ms st = Inr tr" "state_ok st" "list_all img_match ms"
  shows "state_ok (state_after st tr)
     \<and> (\<forall>x c. map_of (cid_map st) x = Some c \<longrightarrow> map_of (cid_map (state_after st tr)) x = Some c)
     \<and> (\<forall>k<length ms.
          case resolved_path env html_name name_set (group_text (ms ! k) 3) of
            None \<Rightarrow> fst (tr ! k) = group0 (ms ! k) \<and> snd (tr ! k) = state_before st tr k
          | Some rel \<Rightarrow>
              (\<exists>c. map_of (cid_map (state_after st tr)) rel = Some c
                 \<and> fst (tr ! k) = group_text (ms ! k) 1 @ group_text (ms ! k) 2 @ ''cid:'' @ c
                                   @ group_text (ms ! k) 2))"
  using assms(2-)
proof (induction ms arbitrary: st tr)
  case Nil
  then show ?case by (simp add: state_after_def)
next
  case (Cons m ms)
  from Cons.prems(1) obtain r st1 tr1 where
    step: "repl m st = Inr (r, st1)" and rest: "rewrite_trace repl ms st1 = Inr tr1"
    and tr: "tr = (r, st1) # tr1"
    by (auto split: sum.splits prod.splits)
  from Cons.prems(3) have im: "img_match m" and ims: "list_all img_match ms" by simp_all
  from im obtain prefix quote path where
    g: "group m 1 = Some prefix" "group m 2 = Some quote" "group m 3 = Some path"
    by (auto simp: img_match_def)
  then have gt: "group_text m 1 = prefix" "group_text m 2 = quote" "group_text m 3 = path"
    by (simp_all add: group_text_def)
  from replace_img_src_step [OF g step [unfolded repl_def] Cons.prems(2)]
  have ok1: "state_ok st1"
    and mono1: "\<forall>x c. map_of (cid_map st) x = Some c \<longrightarrow> map_of (cid_map st1) x = Some c"
    and here: "case resolved_path env html_name name_set path of
          None \<Rightarrow> r = group0 m \<and> st1 = st
        | Some rel \<Rightarrow> (\<exists>c. map_of (cid_map st1) rel = Some c
                            \<and> r = prefix @ quote @ ''cid:'' @ c @ quote)"
    by blast+
  from Cons.IH [OF rest ok1 ims]
  have ok2: "state_ok (state_after st1 tr1)"
    and mono2: "\<forall>x c. map_of (cid_map st1) x = Some c \<longrightarrow> map_of (cid_map (state_after st1 tr1)) x = Some c"
    and later: "\<forall>k<length ms.
          case resolved_path env html_name name_set (group_text (ms ! k) 3) of
            None \<Rightarrow> fst (tr1 ! k) = group0 (ms ! k) \<and> snd (tr1 ! k) = state_before st1 tr1 k
          | Some rel \<Rightarrow>
              (\<exists>c. map_of (cid_map (state_after st1 tr1)) rel = Some c
                 \<and> fst (tr1 ! k) = group_text (ms ! k) 1 @ group_text (ms ! k) 2 @ ''cid:'' @ c
                                   @ group_text (ms ! k) 2)"
    by blast+
  have fin: "state_after st tr = state_after st1 tr1"
    by (simp add: tr state_after_def)
  have "case resolved_path env html_name name_set (group_text ((m # ms) ! k) 3) of
            None \<Rightarrow> fst (tr ! k) = group0 ((m # ms) ! k) \<and> snd (tr ! k) = state_before st tr k
          | Some rel \<Rightarrow>
              (\<exists>c. map_of (cid_map (state_after st tr)) rel = Some c
                 \<and> fst (tr ! k) = group_text ((m # ms) ! k) 1 @ group_text ((m # ms) ! k) 2 @ ''cid:'' @ c
                                   @ group_text ((m # ms) ! k) 2)"
    if "k < length (m # ms)" for k
  proof (cases k)
    case 0
    with here mono2 gt fin tr show ?thesis
      by (auto simp: state_before_def split: option.splits)
  next
    case (Suc k')
    with that have "k' < length ms" by simp
    with later have l: "case resolved_path env html_name name_set (group_text (ms ! k') 3) of
            None \<Rightarrow> fst (tr1 ! k') = group0 (ms ! k') \<and> snd (tr1 ! k') = state_before st1 tr1 k'
          | Some rel \<Rightarrow>
              (\<exists>c. map_of (cid_map (state_after st1 tr1)) rel = Some c
                 \<and> fst (tr1 ! k') = group_text (ms ! k') 1 @ group_text (ms ! k') 2 @ ''cid:'' @ c
                                   @ group_text (ms ! k') 2)"
      by blast
    have sb: "state_before st tr (Suc k') = state_before st1 tr1 k'"
      by (cases k') (simp_all add: state_before_def tr)
    from l sb Suc fin tr show ?thesis by (simp split: option.splits)
  qed
  with ok2 mono1 mono2 fin show ?case by auto
qed

lemma distinct_count_one: "distinct xs \<Longrightarrow> x \<in> set xs \<Longrightarrow> length (filter (\<lambda>y. y = x) xs) = 1"
  by (induction xs) (auto simp: filter_empty_conv)

lemma length_filter_map_eq:
  "length (filter (\<lambda>y. y = x) (map f xs)) = length (filter (\<lambda>r. f r = x) xs)"
  by (induction xs) auto

lemma state_ok_one_resource:
  assumes "state_ok st" "map_of (cid_map st) rel = Some c"
  shows "length (filter (\<lambda>res. res_name res = Some rel) (resources st)) = 1
     \<and> list_ex (\<lambda>res. res_name res = Some rel \<and> res_cid res = c) (resources st)
     \<and> distinct (map res_name (resources st))"
proof -
  let ?pairs = "map (\<lambda>res. (res_name res, res_cid res)) (resources st)"
  from assms(1) have eq: "?pairs = map (\<lambda>(rel, c). (Some rel, c)) (cid_map st)"
    and dist: "distinct (map fst (cid_map st))"
    by (simp_all add: state_ok_def)
  have "map res_name (resources st) = map fst ?pairs" by simp
  also have "\<dots> = map Some (map fst (cid_map st))" unfolding eq by (simp add: case_prod_unfold)
  finally have names: "map res_name (resources st) = map Some (map fst (cid_map st))" .
  from dist have dn: "distinct (map res_name (resources st))"
    unfolding names by (subst distinct_map) (auto simp: inj_on_def)
  from assms(2) have mem: "(rel, c) \<in> set (cid_map st)" by (rule map_of_SomeD)
  then have "Some rel \<in> set (map res_name (resources st))"
    unfolding names by force
  with dn have "length (filter (\<lambda>n. n = Some rel) (map res_name (resources st))) = 1"
    by (rule distinct_count_one)
  then have one: "length (filter (\<lambda>res. res_name res = Some rel) (resources st)) = 1"
    by (simp only: length_filter_map_eq)
  from mem have "(Some rel, c) \<in> set ?pairs" unfolding eq by force
  then have "list_ex (\<lambda>res. res_name res = Some rel \<and> res_cid res = c) (resources st)"
    by (auto simp: list_ex_iff)
  with one dn show ?thesis by blast
qed

lemma empty_state_ok: "state_ok empty_state"
  by (simp add: state_ok_def empty_state_def)

lemma re_sub_img_trace:
  assumes "re_sub essential_img_src_re repl text st = Inr (out, st')"
  shows "\<exists>tr. rewrite_trace repl (finditer essential_img_src_re text 0) st = Inr tr
           \<and> out = assemble text 0 (finditer essential_img_src_re text 0) (map fst tr)
           \<and> st' = state_after st tr"
  using assms unfolding re_sub_def sub_from_trace by (auto split: sum.splits)

text \<open>
  Claim C1. In a rewrite pass that completes, two image references that resolve to the
  same canonical archive path are both rewritten to \<open>cid:\<close> followed by one and the same
  content identifier, each behind its own prefix and between its own quotes, whatever
  their spelling; the resource list holds exactly one resource with that path, which
  carries that identifier, and no two resources share a path.
\<close>

theorem same_path_same_cid:
  assumes "re_sub essential_img_src_re (replace_img_src env zf html_name name_set name_map)
             text empty_state = Inr (out, st)"
    and "ms = finditer essential_img_src_re text 0"
    and "i < length ms" "j < length ms"
    and "resolved_path env html_name name_set (group_text (ms ! i) 3) = Some rel"
    and "resolved_path env html_name name_set (group_text (ms ! j) 3) = Some rel"
  shows "\<exists>rs c. length rs = length ms \<and> out = assemble text 0 ms rs
     \<and> rs ! i = group_text (ms ! i) 1 @ group_text (ms ! i) 2 @ ''cid:'' @ c @ group_text (ms ! i) 2
     \<and> rs ! j = group_text (ms ! j) 1 @ group_text (ms ! j) 2 @ ''cid:'' @ c @ group_text (ms ! j) 2
     \<and> length (filter (\<lambda>res. res_name res = Some rel) (resources st)) = 1
     \<and> list_ex (\<lambda>res. res_name res = Some rel \<and> res_cid res = c) (resources st)
     \<and> distinct (map res_name (resources st))"
proof -
  let ?repl = "replace_img_src env zf html_name name_set name_map"
  from re_sub_img_trace [OF assms(1)] assms(2) obtain tr where
    tr: "rewrite_trace ?repl ms empty_state = Inr tr"
    and out: "out = assemble text 0 ms (map fst tr)"
    and st: "st = state_after empty_state tr"
    by blast
  have ims: "list_all img_match ms"
    unfolding assms(2) list_all_iff using finditer_img_match by blast
  note p = rewrite_trace_props [OF tr empty_state_ok ims]
  from p have ok: "state_ok st" unfolding st by blast
  from p assms(3,5) obtain c where
    ci: "map_of (cid_map st) rel = Some c"
    "fst (tr ! i) = group_text (ms ! i) 1 @ group_text (ms ! i) 2 @ ''cid:'' @ c @ group_text (ms ! i) 2"
    unfolding st by fastforce
  from p assms(4,6) obtain c' where
    cj: "map_of (cid_map st) rel = Some c'"
    "fst (tr ! j) = group_text (ms ! j) 1 @ group_text (ms ! j) 2 @ ''cid:'' @ c' @ group_text (ms ! j) 2"
    unfolding st by fastforce
  from ci(1) cj(1) have same: "c' = c" by simp
  have len: "length (map fst tr) = length ms" using rewrite_trace_length [OF tr] by simp
  from len assms(3,4) have nth: "map fst tr ! i = fst (tr ! i)" "map fst tr ! j = fst (tr ! j)"
    by simp_all
  from state_ok_one_resource [OF ok ci(1)] ci(2) cj(2) same len out nth
  show ?thesis
    by (intro exI [of _ "map fst tr"] exI [of _ c]) simp
qed

lemma demo_run:
  "re_sub essential_img_src_re
     (replace_img_src demo_env demo_layer ''index.html'' (set demo_names) demo_name_map)
     demo_html empty_state = Inr (demo_out, demo_state)"
  by code_simp

theorem same_path_same_cid_witness:
  "re_sub essential_img_src_re
     (replace_img_src demo_env demo_layer ''index.html'' (set demo_names) demo_name_map)
     demo_html empty_state = Inr (demo_out, demo_state)
   \<and> 0 < length demo_matches \<and> 1 < length demo_matches
   \<and> group_text (demo_matches ! 0) 3 = ''img/a.png''
   \<and> group_text (demo_matches ! 1) 3 = ''./img/a.png''
   \<and> resolved_path demo_env ''index.html'' (set demo_names) (group_text (demo_matches ! 0) 3)
        = Some ''img/a.png''
   \<and> resolved_path demo_env ''index.html'' (set demo_names) (group_text (demo_matches ! 1) 3)
        = Some ''img/a.png''
   \<and> (\<exists>rs c. length rs = length demo_matches \<and> demo_out = assemble demo_html 0 demo_matches rs
     \<and> rs ! 0 = group_text (demo_matches ! 0) 1 @ group_text (demo_matches ! 0) 2 @ ''cid:'' @ c
                  @ group_text (demo_matches ! 0) 2
     \<and> rs ! 1 = group_text (demo_matches ! 1) 1 @ group_text (demo_matches ! 1) 2 @ ''cid:'' @ c
                  @ group_text (demo_matches ! 1) 2
     \<and> length (filter (\<lambda>res. res_name res = Some ''img/a.png'') (resources demo_state)) = 1
     \<and> list_ex (\<lambda>res. res_name res = Some ''img/a.png'' \<and> res_cid res = c) (resources demo_state)
     \<and> distinct (map res_name (resources demo_state)))"
proof -
  have l: "0 < length demo_matches" "1 < length demo_matches"
    by code_simp+
  have g: "group_text (demo_matches ! 0) 3 = ''img/a.png''"
    "group_text (demo_matches ! 1) 3 = ''./img/a.png''"
    by code_simp+
  have r: "resolved_path demo_env ''index.html'' (set demo_names) (group_text (demo_matches ! 0) 3)
        = Some ''img/a.png''"
    "resolved_path demo_env ''index.html'' (set demo_names) (group_text (demo_matches ! 1) 3)
        = Some ''img/a.png''"
    by code_simp+
  from same_path_same_cid [OF demo_run demo_matches_def l r] demo_run l g r
  show ?thesis by blast
qed

lemma slice_slice_drop:
  assumes "pos \<le> a" "a \<le> b"
  shows "slice s pos a @ slice s a b @ drop b s = drop pos s"
proof -
  have "slice s a b @ drop b s = drop a s"
    using assms(2) by (simp add: slice_def) (metis add_diff_inverse_nat append_take_drop_id drop_drop not_less add.commute)
  moreover have "slice s pos a @ drop a s = drop pos s"
    using assms(1) by (simp add: slice_def) (metis add_diff_inverse_nat append_take_drop_id drop_drop not_less add.commute)
  ultimately show ?thesis by simp
qed

lemma rx_search_span:
  assumes "rx_search p s pos = Some m"
  shows "m_string m = s \<and> pos \<le> m_start m \<and> m_start m \<le> m_end m"
proof -
  from assms obtain i where i: "rx_match_at p s i = Some m"
    by (blast dest: rx_search_match_at)
  then obtain e g where "rx_run p s i no_marks = Some (e, g)" "m_string m = s" "m_start m = i" "m_end m = e"
    by (auto simp: rx_match_at_def split: option.splits)
  with rx_run_end_and_groups [of p s i no_marks e g] rx_search_start [OF assms]
  show ?thesis by simp
qed

lemma finditer_assemble_same:
  "assemble s pos (finditer p s pos) (map group0 (finditer p s pos)) = drop pos s"
proof (induction p s pos rule: finditer.induct)
  case (1 p s pos)
  show ?case
  proof (cases "rx_search p s pos")
    case None
    then show ?thesis by (simp add: finditer.simps [of p s pos])
  next
    case (Some m)
    show ?thesis
    proof (cases "pos < m_end m")
      case True
      from rx_search_span [OF Some] have sp: "m_string m = s" "pos \<le> m_start m" "m_start m \<le> m_end m"
        by simp_all
      from Some True have f: "finditer p s pos = m # finditer p s (m_end m)"
        by (simp add: finditer.simps [of p s pos])
      from "1.IH" [OF Some True] sp slice_slice_drop [OF sp(2,3), of s] show ?thesis
        unfolding f by (simp add: group0_def)
    next
      case False
      with Some show ?thesis by (simp add: finditer.simps [of p s pos])
    qed
  qed
qed

lemma trace_all_unchanged:
  assumes "length tr = length ms"
    and "\<forall>k<length ms. fst (tr ! k) = group0 (ms ! k) \<and> snd (tr ! k) = state_before st tr k"
  shows "map fst tr = map group0 ms \<and> state_after st tr = st"
proof -
  have "snd (tr ! k) = st" if "k < length ms" for k
    using that
  proof (induction k)
    case 0
    with assms(2) show ?case by (simp add: state_before_def)
  next
    case (Suc k)
    with assms(2) have "snd (tr ! Suc k) = snd (tr ! k)" by (simp add: state_before_def)
    with Suc show ?case by simp
  qed
  then have "state_after st tr = st"
  proof (cases "tr = []")
    case True
    then show ?thesis by (simp add: state_after_def)
  next
    case False
    with assms(1) have "length ms - 1 < length ms" by (cases ms) auto
    with \<open>\<And>k. k < length ms \<Longrightarrow> snd (tr ! k) = st\<close> have "snd (tr ! (length ms - 1)) = st" by blast
    with False assms(1) show ?thesis by (simp add: state_after_def last_conv_nth)
  qed
  moreover have "map fst tr = map group0 ms"
    using assms by (intro nth_equalityI) simp_all
  ultimately show ?thesis by blast
qed

text \<open>
  Claim C2. In a rewrite pass that completes, a match whose path core matches the
  external-scheme pattern, or none of whose candidates resolves to a name of the
  archive, is replaced by its own text, and the resources, the identifiers and the
  list of inlined paths after it are those before it. When no match resolves at all,
  the output text is the input text and the state is the empty one.
\<close>

theorem unresolved_match_unchanged:
  assumes "re_sub essential_img_src_re (replace_img_src env zf html_name name_set name_map)
             text empty_state = Inr (out, st)"
    and "ms = finditer essential_img_src_re text 0"
    and "k < length ms"
    and "external_scheme_re_match (path_core_of (group_text (ms ! k) 3))
         \<or> list_all (\<lambda>cand. resolve_rel_path html_name cand \<notin> name_set)
              (candidates_of env (path_core_of (group_text (ms ! k) 3)))"
  shows "\<exists>tr. rewrite_trace (replace_img_src env zf html_name name_set name_map) ms empty_state = Inr tr
     \<and> out = assemble text 0 ms (map fst tr)
     \<and> st = state_after empty_state tr
     \<and> fst (tr ! k) = group0 (ms ! k)
     \<and> snd (tr ! k) = state_before empty_state tr k
     \<and> (list_all (\<lambda>m. resolved_path env html_name name_set (group_text m 3) = None) ms
          \<longrightarrow> out = text \<and> st = empty_state)"
proof -
  let ?repl = "replace_img_src env zf html_name name_set name_map"
  from re_sub_img_trace [OF assms(1)] assms(2) obtain tr where
    tr: "rewrite_trace ?repl ms empty_state = Inr tr"
    and out: "out = assemble text 0 ms (map fst tr)"
    and st: "st = state_after empty_state tr"
    by blast
  have ims: "list_all img_match ms"
    unfolding assms(2) list_all_iff using finditer_img_match by blast
  note p = rewrite_trace_props [OF tr empty_state_ok ims]
  from assms(4) have "resolved_path env html_name name_set (group_text (ms ! k) 3) = None"
    by (auto simp: resolved_path_def Let_def find_None_iff list_all_iff)
  with p assms(3)
  have here: "fst (tr ! k) = group0 (ms ! k) \<and> snd (tr ! k) = state_before empty_state tr k"
    by fastforce
  have "out = text \<and> st = empty_state"
    if all: "list_all (\<lambda>m. resolved_path env html_name name_set (group_text m 3) = None) ms"
  proof -
    from all p have "\<forall>k<length ms. fst (tr ! k) = group0 (ms ! k)
        \<and> snd (tr ! k) = state_before empty_state tr k"
      by (fastforce simp: list_all_length)
    from trace_all_unchanged [OF rewrite_trace_length [OF tr] this]
    have "map fst tr = map group0 ms" "state_after empty_state tr = empty_state" by simp_all
    with out st finditer_assemble_same [of "text" 0 essential_img_src_re] assms(2)
    show ?thesis by simp
  qed
  with tr out st here show ?thesis by blast
qed

theorem unresolved_match_unchanged_witness:
  "re_sub essential_img_src_re
     (replace_img_src demo_env demo_layer ''index.html'' (set demo_names) demo_name_map)
     demo_html empty_state = Inr (demo_out, demo_state)
   \<and> 2 < length demo_matches
   \<and> group_text (demo_matches ! 2) 3 = ''https://x/y.png''
   \<and> external_scheme_re_match (path_core_of (group_text (demo_matches ! 2) 3))
   \<and> 3 < length demo_matches
   \<and> group_text (demo_matches ! 3) 3 = ''missing/not-there.png''
   \<and> list_all (\<lambda>cand. resolve_rel_path ''index.html'' cand \<notin> set demo_names)
        (candidates_of demo_env (path_core_of (group_text (demo_matches ! 3) 3)))
   \<and> (\<exists>tr. rewrite_trace
          (replace_img_src demo_env demo_layer ''index.html'' (set demo_names) demo_name_map)
          demo_matches empty_state = Inr tr
     \<and> demo_out = assemble demo_html 0 demo_matches (map fst tr)
     \<and> demo_state = state_after empty_state tr
     \<and> fst (tr ! 2) = group0 (demo_matches ! 2)
     \<and> snd (tr ! 2) = state_before empty_state tr 2
     \<and> fst (tr ! 3) = group0 (demo_matches ! 3)
     \<and> snd (tr ! 3) = state_before empty_state tr 3)"
proof -
  have l: "2 < length demo_matches" "3 < length demo_matches"
    by code_simp+
  have g: "group_text (demo_matches ! 2) 3 = ''https://x/y.png''"
    "group_text (demo_matches ! 3) 3 = ''missing/not-there.png''"
    by code_simp+
  have e: "external_scheme_re_match (path_core_of (group_text (demo_matches ! 2) 3))"
    by code_simp
  have u: "list_all (\<lambda>cand. resolve_rel_path ''index.html'' cand \<notin> set demo_names)
        (candidates_of demo_env (path_core_of (group_text (demo_matches ! 3) 3)))"
    by code_simp
  from unresolved_match_unchanged [OF demo_run demo_matches_def l(1) disjI1 [OF e]]
    unresolved_match_unchanged [OF demo_run demo_matches_def l(2) disjI2 [OF u]]
    demo_run l g e u
  show ?thesis by fastforce
qed

end
